theory Spec2Isabelle
  imports Main "HOL-Library.Signed_Division"
begin

section \<open>Ring all-reduce: the data model\<close>

text \<open>
  The model follows \<^verbatim>\<open>pkg/ringallreduce\<close>: the types \<^verbatim>\<open>Msg\<close> and \<^verbatim>\<open>Node\<close>, the method
  \<^verbatim>\<open>Node.Run\<close> and the function \<^verbatim>\<open>Execute\<close>. Go's \<^verbatim>\<open>int\<close> has 64 bits. The
  product \<^verbatim>\<open>p * chunkSize\<close> of the setup is modelled with its wrap-around (\<open>wrap64\<close>). The
  index arithmetic of \<^verbatim>\<open>Run\<close> is written on \<^typ>\<open>int\<close>: on a ring of \<open>P\<close> ranks its sums lie
  between 0 and \<open>2 * P\<close> and its products between 0 and \<open>P * ChunkSize\<close>, the length of the
  vectors that the setup has allocated. Memory is not modelled. The element type
  \<^verbatim>\<open>float64\<close> is a type parameter that only needs a zero and an addition; no law of the
  addition is assumed in the model of \<^verbatim>\<open>Run\<close>, so the order of every sum is the order of
  the code. A run-time panic is a value of type \<open>error\<close>.
\<close>

datatype error =
  MakesliceLenOutOfRange
| SliceBoundsOutOfRange
| IndexOutOfRange
| IntegerDivideByZero
| AllGoroutinesAsleep

text \<open>\<^verbatim>\<open>type Msg struct { ChunkIdx int; Data []float64 }\<close>\<close>

datatype 'a Msg = Msg (ChunkIdx: int) (MsgData: "'a list")

text \<open>
  \<^verbatim>\<open>type Node struct\<close>. A channel reference (\<^verbatim>\<open>chan Msg\<close>) is the index of the channel in
  the store of channels of the configuration.
\<close>

record 'a Node =
  Rank :: int
  P :: int
  ChunkSize :: int
  Data :: "'a list"
  In :: nat
  Out :: nat

text \<open>A buffered channel: \<^verbatim>\<open>make(chan Msg, 2)\<close> is \<open>Chan 2 []\<close>.\<close>

datatype 'a chan = Chan (cap: nat) (buf: "'a Msg list")

text \<open>
  The two loops of \<^verbatim>\<open>Run\<close>. A goroutine executing \<^verbatim>\<open>Run\<close> is either about to build and
  send the message of step \<open>s\<close>, or has sent it and is about to receive, or has left both
  loops (\<^verbatim>\<open>wg.Done()\<close>).
\<close>

datatype phase = ReduceScatter | Allgather

datatype pc = Send phase int | Recv phase int | Done

text \<open>
  Lines written to standard output: the diagnostic of \<^verbatim>\<open>Run\<close>
  (\<^verbatim>\<open>Node r (phase): Expected chunk e but received g\<close>) and the final report of
  \<^verbatim>\<open>Execute\<close>.
\<close>

datatype 'a line = Expected phase int int int | FinalData int "'a list"

record 'a config =
  nodes :: "'a Node list"
  pcs :: "pc list"
  chans :: "'a chan list"
  stdout :: "'a line list"

datatype 'a outcome = Blocked | Exited | Panic error | Step "'a config"

section \<open>Go primitives\<close>

definition andThen :: "error + 'a \<Rightarrow> ('a \<Rightarrow> error + 'b) \<Rightarrow> error + 'b" where
  "andThen m f = (case m of Inl e \<Rightarrow> Inl e | Inr x \<Rightarrow> f x)"

text \<open>\<^verbatim>\<open>a % b\<close>: the remainder of the truncated division; a zero divisor panics.\<close>

definition goRem :: "int \<Rightarrow> int \<Rightarrow> error + int" where
  "goRem a b = (if b = 0 then Inl IntegerDivideByZero else Inr (a smod b))"

text \<open>
  \<^verbatim>\<open>make([]float64, n)\<close>: \<open>n\<close> zeros; a negative length panics. There is no upper limit
  on the length: every allocation of a length that is not negative succeeds.
\<close>

definition make :: "int \<Rightarrow> error + ('a::zero) list" where
  "make n = (if n < 0 then Inl MakesliceLenOutOfRange else Inr (replicate (nat n) 0))"

text \<open>\<^verbatim>\<open>xs[lo:hi]\<close> on a slice whose capacity is its length.\<close>

definition slice :: "'a list \<Rightarrow> int \<Rightarrow> int \<Rightarrow> error + 'a list" where
  "slice xs lo hi =
     (if 0 \<le> lo \<and> lo \<le> hi \<and> hi \<le> int (length xs)
      then Inr (take (nat (hi - lo)) (drop (nat lo) xs))
      else Inl SliceBoundsOutOfRange)"

text \<open>\<^verbatim>\<open>copy(dst, src)\<close>: the first \<open>min (len dst) (len src)\<close> elements are overwritten.\<close>

definition copy :: "'a list \<Rightarrow> 'a list \<Rightarrow> 'a list" where
  "copy dst src =
     take (min (length dst) (length src)) src @ drop (min (length dst) (length src)) dst"

section \<open>Node.Run\<close>

text \<open>The index computations at the head of the two loop bodies.\<close>

definition sendIdx :: "phase \<Rightarrow> 'a Node \<Rightarrow> int \<Rightarrow> error + int" where
  "sendIdx ph proc s =
     (case ph of
        ReduceScatter \<Rightarrow> goRem (Rank proc - s + P proc) (P proc)
      | Allgather \<Rightarrow> goRem (Rank proc + 1 + s) (P proc))"

definition recvIdx :: "phase \<Rightarrow> 'a Node \<Rightarrow> int \<Rightarrow> error + int" where
  "recvIdx ph proc s =
     (case ph of
        ReduceScatter \<Rightarrow> goRem (Rank proc - s - 1 + P proc) (P proc)
      | Allgather \<Rightarrow> goRem (Rank proc + 2 + s) (P proc))"

text \<open>
  \<^verbatim>\<open>startSend := sendIdx * proc.ChunkSize; msgData := make([]float64, proc.ChunkSize);
  copy(msgData, proc.Data[startSend:startSend+proc.ChunkSize]); Msg{sendIdx, msgData}\<close>
\<close>

definition buildMsg :: "('a::zero) Node \<Rightarrow> int \<Rightarrow> error + 'a Msg" where
  "buildMsg proc si =
     (let startSend = si * ChunkSize proc in
      andThen (make (ChunkSize proc)) (\<lambda>msgData.
      andThen (slice (Data proc) startSend (startSend + ChunkSize proc)) (\<lambda>src.
      Inr (Msg si (copy msgData src)))))"

text \<open>
  \<^verbatim>\<open>for i := 0; i < proc.ChunkSize; i++ { proc.Data[startRecv+i] += received.Data[i] }\<close>,
  from the value \<open>i\<close> of the loop variable on.
\<close>

function reduceLoop :: "int \<Rightarrow> int \<Rightarrow> 'a list \<Rightarrow> int \<Rightarrow> ('a::plus) list \<Rightarrow> error + 'a list" where
  "reduceLoop chunkSize startRecv received i d =
     (if i < chunkSize
      then (if 0 \<le> startRecv + i \<and> startRecv + i < int (length d)
               \<and> 0 \<le> i \<and> i < int (length received)
            then reduceLoop chunkSize startRecv received (i + 1)
                   (d[nat (startRecv + i) := d ! nat (startRecv + i) + received ! nat i])
            else Inl IndexOutOfRange)
      else Inr d)"
  by pat_completeness auto
termination
  by (relation "measure (\<lambda>(chunkSize, startRecv, received, i, d). nat (chunkSize - i))") auto

text \<open>
  The part of a loop body after \<^verbatim>\<open>received := <-proc.In\<close>: the check of the chunk index,
  which only prints, and the update of \<^verbatim>\<open>proc.Data\<close>: the elementwise addition in the
  reduce-scatter loop, \<^verbatim>\<open>copy(proc.Data[startRecv:startRecv+proc.ChunkSize], received.Data)\<close>
  in the allgather loop. The result is the node and the lines printed.
\<close>

definition receive ::
  "phase \<Rightarrow> ('a::plus) Node \<Rightarrow> int \<Rightarrow> 'a Msg \<Rightarrow> error + ('a Node \<times> 'a line list)" where
  "receive ph proc s received =
     andThen (recvIdx ph proc s) (\<lambda>ri.
       let printed = (if ChunkIdx received \<noteq> ri
                      then [Expected ph (Rank proc) ri (ChunkIdx received)] else []);
           startRecv = ri * ChunkSize proc
       in case ph of
            ReduceScatter \<Rightarrow>
              andThen (reduceLoop (ChunkSize proc) startRecv (MsgData received) 0 (Data proc))
                (\<lambda>d. Inr (proc\<lparr>Data := d\<rparr>, printed))
          | Allgather \<Rightarrow>
              andThen (slice (Data proc) startRecv (startRecv + ChunkSize proc))
                (\<lambda>dst. Inr (proc\<lparr>Data := take (nat startRecv) (Data proc)
                                          @ copy dst (MsgData received)
                                          @ drop (nat (startRecv + ChunkSize proc)) (Data proc)\<rparr>,
                             printed)))"

text \<open>
  The loop conditions \<^verbatim>\<open>s < proc.P-1\<close>: where control goes when a loop is entered with
  the value \<open>s\<close>. Leaving the first loop enters the second with \<open>s = 0\<close>.
\<close>

definition loopHead :: "phase \<Rightarrow> 'a Node \<Rightarrow> int \<Rightarrow> pc" where
  "loopHead ph proc s =
     (case ph of
        ReduceScatter \<Rightarrow>
          (if s < P proc - 1 then Send ReduceScatter s
           else if 0 < P proc - 1 then Send Allgather 0 else Done)
      | Allgather \<Rightarrow> (if s < P proc - 1 then Send Allgather s else Done))"

text \<open>
  One action of goroutine \<open>i\<close>. A send blocks while the channel is full, a receive while
  it is empty; the message is built before the send is attempted. A panic of one
  goroutine ends the program. A receive, the diagnostic line it may print and the
  update of \<^verbatim>\<open>Data\<close> that follows are one action: they touch nothing that another
  goroutine reads but the shared output, so only the order in which lines of different
  goroutines reach the output is coarser in the model than in the program.
\<close>

definition goStep :: "('a::{zero,plus}) config \<Rightarrow> nat \<Rightarrow> 'a outcome" where
  "goStep c i =
     (let proc = nodes c ! i in
      case pcs c ! i of
        Done \<Rightarrow> Exited
      | Send ph s \<Rightarrow>
          (case andThen (sendIdx ph proc s) (\<lambda>si.
                andThen (recvIdx ph proc s) (\<lambda>ri. buildMsg proc si)) of
             Inl e \<Rightarrow> Panic e
           | Inr m \<Rightarrow>
               (if Out proc < length (chans c)
                   \<and> length (buf (chans c ! Out proc)) < cap (chans c ! Out proc)
                then Step (c\<lparr>chans := (chans c)[Out proc :=
                                 Chan (cap (chans c ! Out proc)) (buf (chans c ! Out proc) @ [m])],
                             pcs := (pcs c)[i := Recv ph s]\<rparr>)
                else Blocked))
      | Recv ph s \<Rightarrow>
          (if In proc < length (chans c) \<and> buf (chans c ! In proc) \<noteq> []
           then (case receive ph proc s (hd (buf (chans c ! In proc))) of
                   Inl e \<Rightarrow> Panic e
                 | Inr (proc', printed) \<Rightarrow>
                     Step (c\<lparr>nodes := (nodes c)[i := proc'],
                             pcs := (pcs c)[i := loopHead ph proc' (s + 1)],
                             chans := (chans c)[In proc :=
                                 Chan (cap (chans c ! In proc)) (tl (buf (chans c ! In proc)))],
                             stdout := stdout c @ printed\<rparr>))
           else Blocked))"

text \<open>The scheduler picks any goroutine that can act.\<close>

definition step :: "('a::{zero,plus}) config \<Rightarrow> 'a config \<Rightarrow> bool" where
  "step c c' = (\<exists>i < length (pcs c). goStep c i = Step c')"

definition steps :: "('a::{zero,plus}) config \<Rightarrow> 'a config \<Rightarrow> bool" where
  "steps = rtranclp step"

definition allDone :: "'a config \<Rightarrow> bool" where
  "allDone c = (\<forall>q \<in> set (pcs c). q = Done)"

text \<open>
  \<^verbatim>\<open>go processes[i].Run(&wg)\<close> for every \<open>i\<close>, then \<^verbatim>\<open>wg.Wait()\<close>: the wait returns in a
  configuration where every goroutine is done; the program ends with a panic if a
  goroutine panics, and with the runtime's fatal error if no goroutine can act while
  some are not done.
\<close>

inductive waitAll :: "('a::{zero,plus}) config \<Rightarrow> error + 'a config \<Rightarrow> bool" where
  returned: "steps c0 c \<Longrightarrow> allDone c \<Longrightarrow> waitAll c0 (Inr c)"
| panicked: "steps c0 c \<Longrightarrow> i < length (pcs c) \<Longrightarrow> goStep c i = Panic e \<Longrightarrow> waitAll c0 (Inl e)"
| deadlock: "steps c0 c \<Longrightarrow> \<not> allDone c
     \<Longrightarrow> \<forall>i < length (pcs c). goStep c i = Blocked \<or> goStep c i = Exited
     \<Longrightarrow> waitAll c0 (Inl AllGoroutinesAsleep)"

text \<open>A fixed schedule, for running the model: the goroutines act in the listed order.\<close>

fun runSchedule :: "nat list \<Rightarrow> ('a::{zero,plus}) config \<Rightarrow> 'a outcome" where
  "runSchedule [] c = Step c"
| "runSchedule (i # is) c =
     (if i < length (pcs c)
      then (case goStep c i of Step c' \<Rightarrow> runSchedule is c' | other \<Rightarrow> other)
      else Blocked)"

section \<open>Execute\<close>

text \<open>
  The construction of the ring, which \<^verbatim>\<open>Execute\<close> and the test
  \<^verbatim>\<open>TestRingAllReduce_CustomData_DistinctChunks\<close> share word for word but for the value
  stored in \<^verbatim>\<open>data[j]\<close>, here \<open>seed i j\<close>: the channels, then one node per rank with
  \<^verbatim>\<open>In: channels[i]\<close> and \<^verbatim>\<open>Out: channels[(i+1)%p]\<close>. Every goroutine starts at the head of
  the first loop of \<^verbatim>\<open>Run\<close>.
\<close>

definition newNode :: "int \<Rightarrow> int \<Rightarrow> int \<Rightarrow> 'a list \<Rightarrow> 'a Node" where
  "newNode p chunkSize i data =
     \<lparr>Rank = i, P = p, ChunkSize = chunkSize, Data = data,
      In = nat i, Out = nat ((i + 1) smod p)\<rparr>"

text \<open>The ring of \<open>p\<close> nodes and \<open>p\<close> channels over the vectors \<open>datas\<close>, one per rank.\<close>

definition ringOf :: "int \<Rightarrow> int \<Rightarrow> 'a list list \<Rightarrow> 'a config" where
  "ringOf p chunkSize datas =
     \<lparr>nodes = map (\<lambda>i. newNode p chunkSize (int i) (datas ! i)) [0..<nat p],
      pcs = map (\<lambda>i. loopHead ReduceScatter (newNode p chunkSize (int i) (datas ! i)) 0)
              [0..<nat p],
      chans = replicate (nat p) (Chan 2 []),
      stdout = []\<rparr>"

text \<open>
  A 64-bit signed integer: the value of an arithmetic result after Go's silent
  wrap-around (two's complement).
\<close>

definition wrap64 :: "int \<Rightarrow> int" where
  "wrap64 x = (x + 2 ^ 63) mod 2 ^ 64 - 2 ^ 63"

text \<open>
  \<^verbatim>\<open>totalSize := p * chunkSize\<close> wraps at 64 bits. \<^verbatim>\<open>make([]chan Msg, p)\<close> panics for a
  negative \<open>p\<close>, and \<^verbatim>\<open>make([]float64, totalSize)\<close>, reached when there is a rank, for a
  negative \<open>totalSize\<close>. Every vector has \<open>totalSize\<close> elements.
\<close>

definition initRing :: "(int \<Rightarrow> int \<Rightarrow> 'a) \<Rightarrow> int \<Rightarrow> int \<Rightarrow> error + 'a config" where
  "initRing seed p chunkSize =
     (let totalSize = wrap64 (p * chunkSize) in
      if p < 0 then Inl MakesliceLenOutOfRange
      else if 0 < p \<and> totalSize < 0 then Inl MakesliceLenOutOfRange
      else Inr (ringOf p chunkSize
                  (map (\<lambda>i. map (\<lambda>j. seed (int i) (int j)) [0..<nat totalSize]) [0..<nat p])))"

text \<open>\<^verbatim>\<open>data[j] = float64(i + 1)\<close>\<close>

definition uniformSeed :: "int \<Rightarrow> int \<Rightarrow> 'a::ring_1" where
  "uniformSeed i j = of_int (i + 1)"

text \<open>
  \<^verbatim>\<open>Execute(procs, chunkSize)\<close> returns the nodes; the lines it has printed by then are
  the second component of the result.
\<close>

definition finalReport :: "'a config \<Rightarrow> 'a line list" where
  "finalReport c = map (\<lambda>i. FinalData (int i) (Data (nodes c ! i))) [0..<length (nodes c)]"

inductive Execute :: "int \<Rightarrow> int \<Rightarrow> error + ('a::ring_1) Node list \<times> 'a line list \<Rightarrow> bool" where
  setup_panics: "initRing (uniformSeed :: int \<Rightarrow> int \<Rightarrow> 'a) procs chunkSize = Inl e \<Longrightarrow> Execute procs chunkSize (Inl e)"
| run_panics: "initRing (uniformSeed :: int \<Rightarrow> int \<Rightarrow> 'a) procs chunkSize = Inr c0 \<Longrightarrow> waitAll c0 (Inl e)
     \<Longrightarrow> Execute procs chunkSize (Inl e)"
| run_returns: "initRing (uniformSeed :: int \<Rightarrow> int \<Rightarrow> 'a) procs chunkSize = Inr c0 \<Longrightarrow> waitAll c0 (Inr c)
     \<Longrightarrow> Execute procs chunkSize (Inr (nodes c, stdout c @ finalReport c))"

text \<open>\<^verbatim>\<open>data[j] = float64(1000*c + 10*k + i)\<close> with \<open>c = j / chunkSize\<close>, \<open>k = j % chunkSize\<close>.\<close>

definition distinctSeed :: "int \<Rightarrow> int \<Rightarrow> int \<Rightarrow> 'a::ring_1" where
  "distinctSeed chunkSize i j = of_int (1000 * (j sdiv chunkSize) + 10 * (j smod chunkSize) + i)"

section \<open>The lockstep computation\<close>

text \<open>
  A reference for the proofs: what every rank holds after \<open>k\<close> of its steps, when each
  step of a rank uses the message its left neighbour sends in the same step. The
  invariant \<open>ringInv\<close> ties every configuration of a run to it: a rank that has completed
  \<open>k\<close> steps holds row \<open>i\<close> of \<open>lock p cs X k\<close>, and a channel holds the messages its
  writer has sent and its reader has not yet received, in order.
\<close>

definition prev :: "nat \<Rightarrow> nat \<Rightarrow> nat" where
  "prev p i = (i + p - 1) mod p"

definition sIdx :: "nat \<Rightarrow> nat \<Rightarrow> nat \<Rightarrow> nat" where
  "sIdx p i k = (if k < p - 1 then (i + p - k) mod p else (i + 1 + (k - (p - 1))) mod p)"

definition rIdx :: "nat \<Rightarrow> nat \<Rightarrow> nat \<Rightarrow> nat" where
  "rIdx p i k = (if k < p - 1 then (i + p - k - 1) mod p else (i + 2 + (k - (p - 1))) mod p)"

definition getChunk :: "nat \<Rightarrow> nat \<Rightarrow> 'a list \<Rightarrow> 'a list" where
  "getChunk cs c d = take cs (drop (c * cs) d)"

definition addChunk :: "nat \<Rightarrow> nat \<Rightarrow> ('a::plus) list \<Rightarrow> 'a list \<Rightarrow> 'a list" where
  "addChunk cs c d r =
     map (\<lambda>j. if c * cs \<le> j \<and> j < c * cs + cs then d ! j + r ! (j - c * cs) else d ! j)
       [0..<length d]"

definition putChunk :: "nat \<Rightarrow> nat \<Rightarrow> 'a list \<Rightarrow> 'a list \<Rightarrow> 'a list" where
  "putChunk cs c d r = take (c * cs) d @ r @ drop (c * cs + cs) d"

fun lock :: "nat \<Rightarrow> nat \<Rightarrow> ('a::plus) list list \<Rightarrow> nat \<Rightarrow> 'a list list" where
  "lock p cs X 0 = X"
| "lock p cs X (Suc k) =
     map (\<lambda>i. (if k < p - 1 then addChunk else putChunk) cs (rIdx p i k) (lock p cs X k ! i)
                 (getChunk cs (sIdx p (prev p i) k) (lock p cs X k ! prev p i)))
       [0..<p]"

fun kof :: "nat \<Rightarrow> pc \<Rightarrow> nat" where
  "kof p (Send ReduceScatter s) = nat s"
| "kof p (Recv ReduceScatter s) = nat s"
| "kof p (Send Allgather s) = p - 1 + nat s"
| "kof p (Recv Allgather s) = p - 1 + nat s"
| "kof p Done = 2 * (p - 1)"

fun sentof :: "nat \<Rightarrow> pc \<Rightarrow> nat" where
  "sentof p (Send ph s) = kof p (Send ph s)"
| "sentof p (Recv ph s) = Suc (kof p (Recv ph s))"
| "sentof p Done = 2 * (p - 1)"

fun pcOk :: "nat \<Rightarrow> pc \<Rightarrow> bool" where
  "pcOk p (Send ph s) = (0 \<le> s \<and> s < int p - 1)"
| "pcOk p (Recv ph s) = (0 \<le> s \<and> s < int p - 1)"
| "pcOk p Done = True"

definition msgOf :: "nat \<Rightarrow> nat \<Rightarrow> ('a::plus) list list \<Rightarrow> nat \<Rightarrow> nat \<Rightarrow> 'a Msg" where
  "msgOf p cs X i k = Msg (int (sIdx p i k)) (getChunk cs (sIdx p i k) (lock p cs X k ! i))"

definition wfX :: "nat \<Rightarrow> nat \<Rightarrow> 'a list list \<Rightarrow> bool" where
  "wfX p cs X = (length X = p \<and> (\<forall>i < p. length (X ! i) = p * cs))"

definition ringInv :: "nat \<Rightarrow> nat \<Rightarrow> ('a::{zero,plus}) list list \<Rightarrow> 'a config \<Rightarrow> bool" where
  "ringInv p cs X c =
     (length (nodes c) = p \<and> length (pcs c) = p \<and> length (chans c) = p \<and>
      (\<forall>i < p.
         nodes c ! i = \<lparr>Rank = int i, P = int p, ChunkSize = int cs,
                          Data = lock p cs X (kof p (pcs c ! i)) ! i,
                          In = i, Out = Suc i mod p\<rparr>
         \<and> pcOk p (pcs c ! i)
         \<and> kof p (pcs c ! i) \<le> sentof p (pcs c ! prev p i)
         \<and> chans c ! i = Chan 2 (map (msgOf p cs X (prev p i))
                                    [kof p (pcs c ! i) ..< sentof p (pcs c ! prev p i)])))"

definition seedData :: "(int \<Rightarrow> int \<Rightarrow> 'a) \<Rightarrow> nat \<Rightarrow> nat \<Rightarrow> 'a list list" where
  "seedData seed p cs = map (\<lambda>i. map (\<lambda>j. seed (int i) (int j)) [0..<p * cs]) [0..<p]"

definition todo :: "nat \<Rightarrow> 'a config \<Rightarrow> nat" where
  "todo p c = (\<Sum>q\<leftarrow>pcs c. 4 * (p - 1) - (kof p q + sentof p q))"

text \<open>
  The sum of element \<open>j\<close> over the ranks \<open>c, c + 1, \<dots>, c + d\<close> (modulo \<open>p\<close>), nested as the
  code adds: each rank adds the value received to its own, \<^verbatim>\<open>Data[j] += received\<close>.
\<close>

fun ringSum :: "('a::plus) list list \<Rightarrow> nat \<Rightarrow> nat \<Rightarrow> nat \<Rightarrow> nat \<Rightarrow> 'a" where
  "ringSum X p c j 0 = X ! c ! j"
| "ringSum X p c j (Suc d) = X ! ((c + Suc d) mod p) ! j + ringSum X p c j d"

definition dist :: "nat \<Rightarrow> nat \<Rightarrow> nat \<Rightarrow> nat" where
  "dist p i c = (i + p - c) mod p"

definition slot :: "nat \<Rightarrow> nat \<Rightarrow> nat \<Rightarrow> nat" where
  "slot p i c = (c + 2 * p - i - 2) mod p"

definition source :: "nat \<Rightarrow> nat \<Rightarrow> nat \<Rightarrow> nat" where
  "source p i s = (i + p - s) mod p"

text \<open>A goroutine has left the reduce-scatter loop.\<close>

definition reduceScatterDone :: "pc \<Rightarrow> bool" where
  "reduceScatterDone q =
     (case q of Send ph s \<Rightarrow> ph = Allgather | Recv ph s \<Rightarrow> ph = Allgather | Done \<Rightarrow> True)"

section \<open>Frames and examples\<close>

definition sameFrame :: "'a Node \<Rightarrow> 'a Node \<Rightarrow> bool" where
  "sameFrame n n' =
     (Rank n' = Rank n \<and> P n' = P n \<and> ChunkSize n' = ChunkSize n \<and> In n' = In n
      \<and> Out n' = Out n \<and> length (Data n') = length (Data n))"

text \<open>
  A run of \<^verbatim>\<open>Execute(3, 1)\<close>: the configuration after the setup, and the configuration
  reached when the goroutines act in turn (all send, then all receive, four times).
\<close>

definition ring3_start :: "int config" where
  "ring3_start =
     \<lparr>nodes =
        [\<lparr>Rank = 0, P = 3, ChunkSize = 1, Data = [1, 1, 1], In = 0, Out = 1\<rparr>,
         \<lparr>Rank = 1, P = 3, ChunkSize = 1, Data = [2, 2, 2], In = 1, Out = 2\<rparr>,
         \<lparr>Rank = 2, P = 3, ChunkSize = 1, Data = [3, 3, 3], In = 2, Out = 0\<rparr>],
      pcs = [Send ReduceScatter 0, Send ReduceScatter 0, Send ReduceScatter 0],
      chans = [Chan 2 [], Chan 2 [], Chan 2 []], stdout = []\<rparr>"

definition ring3_final :: "int config" where
  "ring3_final =
     \<lparr>nodes =
        [\<lparr>Rank = 0, P = 3, ChunkSize = 1, Data = [6, 6, 6], In = 0, Out = 1\<rparr>,
         \<lparr>Rank = 1, P = 3, ChunkSize = 1, Data = [6, 6, 6], In = 1, Out = 2\<rparr>,
         \<lparr>Rank = 2, P = 3, ChunkSize = 1, Data = [6, 6, 6], In = 2, Out = 0\<rparr>],
      pcs = [Done, Done, Done], chans = [Chan 2 [], Chan 2 [], Chan 2 []],
      stdout =
        [Expected Allgather 0 2 0, Expected Allgather 1 0 1, Expected Allgather 2 1 2,
         Expected Allgather 0 0 1, Expected Allgather 1 1 2, Expected Allgather 2 2 0]\<rparr>"

text \<open>
  The configuration that the test \<^verbatim>\<open>TestRingAllReduce_CustomData_DistinctChunks\<close> builds
  in its case \<^verbatim>\<open>p=3,chunk=1\<close>: element \<open>j\<close> of rank \<open>i\<close> is \<open>1000 * j + i\<close>.
\<close>

definition distinct3_start :: "int config" where
  "distinct3_start =
     \<lparr>nodes =
        [\<lparr>Rank = 0, P = 3, ChunkSize = 1, Data = [0, 1000, 2000], In = 0, Out = 1\<rparr>,
         \<lparr>Rank = 1, P = 3, ChunkSize = 1, Data = [1, 1001, 2001], In = 1, Out = 2\<rparr>,
         \<lparr>Rank = 2, P = 3, ChunkSize = 1, Data = [2, 1002, 2002], In = 2, Out = 0\<rparr>],
      pcs = [Send ReduceScatter 0, Send ReduceScatter 0, Send ReduceScatter 0],
      chans = [Chan 2 [], Chan 2 [], Chan 2 []], stdout = []\<rparr>"

section \<open>Runs\<close>

lemma andThen_simps [simp]:
  "andThen (Inl e) f = Inl e" "andThen (Inr x) f = f x"
  by (simp_all add: andThen_def)

lemma steps_refl: "steps c c"
  by (simp add: steps_def)

lemma steps_step: "steps c c' \<Longrightarrow> step c' c'' \<Longrightarrow> steps c c''"
  by (simp add: steps_def)

lemma step_steps: "step c c' \<Longrightarrow> steps c' c'' \<Longrightarrow> steps c c''"
  by (simp add: steps_def)

lemma steps_induct [consumes 1, case_names refl step]:
  assumes "steps c c'" and "Q c"
    and "\<And>d d'. steps c d \<Longrightarrow> Q d \<Longrightarrow> step d d' \<Longrightarrow> Q d'"
  shows "Q c'"
  using assms(1) unfolding steps_def
proof (induction rule: rtranclp_induct)
  case base
  show ?case by (rule assms(2))
next
  case (step y z)
  have "steps c y" using step.hyps(1) by (simp add: steps_def)
  from assms(3) [OF this step.IH step.hyps(2)] show ?case .
qed

lemma runSchedule_steps: "runSchedule sch c = Step c' \<Longrightarrow> steps c c'"
proof (induction sch arbitrary: c)
  case Nil
  then show ?case by (simp add: steps_refl)
next
  case (Cons i sch)
  from Cons.prems have i: "i < length (pcs c)"
    by (simp split: if_splits)
  from Cons.prems i obtain d where d: "goStep c i = Step d" and r: "runSchedule sch d = Step c'"
    by (cases "goStep c i") simp_all
  from i d have "step c d" by (auto simp: step_def)
  then show ?case using Cons.IH [OF r] by (rule step_steps)
qed

text \<open>When every goroutine is done nothing moves, and the wait returns at once.\<close>

lemma allDone_goStep: "allDone c \<Longrightarrow> i < length (pcs c) \<Longrightarrow> goStep c i = Exited"
proof -
  assume "allDone c" "i < length (pcs c)"
  then have "pcs c ! i = Done" by (simp add: allDone_def)
  then show ?thesis by (simp add: goStep_def)
qed

lemma allDone_no_step: "allDone c \<Longrightarrow> \<not> step c c'"
  using allDone_goStep [of c] by (auto simp: step_def)

lemma allDone_steps: "steps c c' \<Longrightarrow> allDone c \<Longrightarrow> c' = c"
proof (induction rule: steps_induct)
  case refl
  show ?case by simp
next
  case (step d d')
  then show ?case using allDone_no_step [of c d'] by simp
qed

lemma allDone_waitAll: "allDone c \<Longrightarrow> waitAll c r \<longleftrightarrow> r = Inr c"
proof
  assume a: "allDone c" and w: "waitAll c r"
  from w show "r = Inr c"
  proof cases
    case (returned d)
    with a show ?thesis by (auto dest: allDone_steps)
  next
    case (panicked d i e)
    with a have "d = c" by (auto dest: allDone_steps)
    with panicked a show ?thesis by (auto dest: allDone_goStep)
  next
    case (deadlock d)
    with a show ?thesis by (auto dest: allDone_steps)
  qed
next
  assume "allDone c" "r = Inr c"
  then show "waitAll c r" by (auto intro: waitAll.returned steps_refl)
qed

lemma initRing_0: "initRing seed 0 cs = Inr \<lparr>nodes = [], pcs = [], chans = [], stdout = []\<rparr>"
  by (simp add: initRing_def ringOf_def)

text \<open>
  C10: for \<open>procs = 0\<close> and any \<open>chunkSize\<close>, \<^verbatim>\<open>Execute\<close> returns the empty sequence of
  participants and no error, whatever the chunk size (also a negative one): nothing is
  validated, no goroutine is started and nothing is printed. It is the only outcome.
\<close>

theorem Execute_zero_procs:
  "Execute 0 chunkSize r \<longleftrightarrow> r = Inr ([], [])"
proof
  let ?c = "\<lparr>nodes = [], pcs = [], chans = [], stdout = []\<rparr> :: 'a config"
  have d: "allDone ?c" by (simp add: allDone_def)
  assume "Execute 0 chunkSize r"
  then show "r = Inr ([], [])"
  proof cases
    case (setup_panics e)
    then show ?thesis by (simp add: initRing_0)
  next
    case (run_panics c0 e)
    then show ?thesis by (auto simp: initRing_0 allDone_waitAll [OF d])
  next
    case (run_returns c0 c)
    then have "c = ?c" by (auto simp: initRing_0 allDone_waitAll [OF d])
    with run_returns show ?thesis by (simp add: finalReport_def)
  qed
next
  let ?c = "\<lparr>nodes = [], pcs = [], chans = [], stdout = []\<rparr> :: 'a config"
  have d: "allDone ?c" by (simp add: allDone_def)
  assume r: "r = Inr ([], [])"
  have "waitAll ?c (Inr ?c)" by (simp add: allDone_waitAll [OF d])
  from Execute.run_returns [OF initRing_0 this] show "Execute 0 chunkSize r"
    by (simp add: r finalReport_def)
qed

theorem Execute_zero_procs_witness:
  "Execute 0 (-7) (Inr ([] :: int Node list, []))"
  using Execute_zero_procs [of "-7" "Inr ([] :: int Node list, [])"] by simp

section \<open>What Run leaves unchanged\<close>

declare reduceLoop.simps [simp del]

lemma reduceLoop_length: "reduceLoop n st r i d = Inr d' \<Longrightarrow> length d' = length d"
proof (induction n st r i d arbitrary: d' rule: reduceLoop.induct)
  case (1 n st r i d)
  from "1.prems" show ?case
    by (subst (asm) reduceLoop.simps) (auto split: if_splits dest: "1.IH")
qed

lemma sameFrame_refl: "sameFrame n n"
  by (simp add: sameFrame_def)

lemma sameFrame_trans: "sameFrame n n' \<Longrightarrow> sameFrame n' n'' \<Longrightarrow> sameFrame n n''"
  by (simp add: sameFrame_def)

lemma receive_frame:
  assumes "receive ph proc s m = Inr (proc', printed)"
  shows "sameFrame proc proc'"
proof (cases ph)
  case ReduceScatter
  with assms show ?thesis
    by (auto simp: receive_def andThen_def Let_def sameFrame_def
             split: sum.splits dest: reduceLoop_length)
next
  case Allgather
  with assms show ?thesis
    by (auto simp: receive_def andThen_def Let_def sameFrame_def slice_def copy_def
             split: sum.splits if_splits)
qed

lemma goStep_lengths:
  assumes "goStep c i = Step c'"
  shows "length (nodes c') = length (nodes c) \<and> length (pcs c') = length (pcs c)
         \<and> length (chans c') = length (chans c)"
proof (cases "pcs c ! i")
  case (Send ph s)
  with assms show ?thesis
    by (auto simp: goStep_def Let_def split: sum.splits if_splits)
next
  case (Recv ph s)
  with assms show ?thesis
    by (auto simp: goStep_def Let_def split: sum.splits if_splits)
next
  case Done
  with assms show ?thesis by (simp add: goStep_def)
qed

lemma goStep_frame:
  assumes "goStep c i = Step c'" and "j < length (nodes c)"
  shows "length (nodes c') = length (nodes c) \<and> sameFrame (nodes c ! j) (nodes c' ! j)"
proof (cases "pcs c ! i")
  case (Send ph s)
  with assms show ?thesis
    by (auto simp: goStep_def Let_def sameFrame_refl split: sum.splits if_splits)
next
  case (Recv ph s)
  with assms obtain a b where
    r: "receive ph (nodes c ! i) s (hd (buf (chans c ! In (nodes c ! i)))) = Inr (a, b)"
    and n: "nodes c' = (nodes c)[i := a]"
    by (auto simp: goStep_def Let_def split: sum.splits if_splits)
  from receive_frame [OF r] assms(2) n show ?thesis
    by (cases "j = i") (simp_all add: sameFrame_refl)
next
  case Done
  with assms show ?thesis by (simp add: goStep_def)
qed

text \<open>
  C8: frame and size invariant. Over any number of actions of any goroutines, from any
  configuration, the sequence of nodes keeps its length and every node keeps its \<open>Rank\<close>,
  \<open>P\<close>, \<open>ChunkSize\<close>, its channel references \<open>In\<close> and \<open>Out\<close>, and the length of its
  \<open>Data\<close>: \<^verbatim>\<open>Run\<close> changes the contents of \<open>Data\<close> only.
\<close>

theorem Run_frame:
  "steps c c' \<Longrightarrow>
     length (nodes c') = length (nodes c) \<and>
     (\<forall>j < length (nodes c). sameFrame (nodes c ! j) (nodes c' ! j))"
proof (induction rule: steps_induct)
  case refl
  show ?case by (simp add: sameFrame_refl)
next
  case (step d d')
  from step.hyps(2) obtain i where i: "goStep d i = Step d'"
    by (auto simp: step_def)
  show ?case
  proof (intro conjI allI impI)
    show "length (nodes d') = length (nodes c)"
      using step.IH goStep_lengths [OF i] by simp
  next
    fix j assume j: "j < length (nodes c)"
    with step.IH have "j < length (nodes d)" and 1: "sameFrame (nodes c ! j) (nodes d ! j)"
      by simp_all
    with goStep_frame [OF i] have "sameFrame (nodes d ! j) (nodes d' ! j)" by simp
    with 1 show "sameFrame (nodes c ! j) (nodes d' ! j)" by (rule sameFrame_trans)
  qed
qed

section \<open>Concrete runs\<close>


lemma ring3_run:
  "runSchedule [0, 1, 2, 0, 1, 2, 0, 1, 2, 0, 1, 2, 0, 1, 2, 0, 1, 2, 0, 1, 2, 0, 1, 2]
     ring3_start = Step ring3_final"
  by code_simp

lemma ring3_steps: "steps ring3_start ring3_final"
  using ring3_run by (rule runSchedule_steps)


lemma Execute_setup_panic:
  assumes "initRing (uniformSeed :: int \<Rightarrow> int \<Rightarrow> 'a::ring_1) p cs = Inl e"
  shows "Execute p cs (r :: error + 'a Node list \<times> 'a line list) \<longleftrightarrow> r = Inl e"
proof
  assume "Execute p cs r"
  then show "r = Inl e"
  proof cases
    case (setup_panics e')
    with assms show ?thesis by simp
  next
    case (run_panics c0 e')
    with assms show ?thesis by simp
  next
    case (run_returns c0 c)
    with assms show ?thesis by simp
  qed
next
  assume "r = Inl e"
  with Execute.setup_panics [OF assms] show "Execute p cs r" by simp
qed

lemma Execute_done:
  assumes "initRing (uniformSeed :: int \<Rightarrow> int \<Rightarrow> 'a::ring_1) p cs = Inr c0" and "allDone c0"
  shows "Execute p cs (r :: error + 'a Node list \<times> 'a line list)
           \<longleftrightarrow> r = Inr (nodes c0, stdout c0 @ finalReport c0)"
proof
  assume "Execute p cs r"
  then show "r = Inr (nodes c0, stdout c0 @ finalReport c0)"
  proof cases
    case (setup_panics e)
    with assms(1) show ?thesis by simp
  next
    case (run_panics d0 e)
    with assms(1) have "waitAll c0 (Inl e)" by simp
    then show ?thesis by (simp add: allDone_waitAll [OF assms(2)])
  next
    case (run_returns d0 c)
    with assms(1) have "waitAll c0 (Inr c)" by simp
    then have "c = c0" by (simp add: allDone_waitAll [OF assms(2)])
    with run_returns(1) show ?thesis by simp
  qed
next
  assume r: "r = Inr (nodes c0, stdout c0 @ finalReport c0)"
  have "waitAll c0 (Inr c0)" by (simp add: allDone_waitAll [OF assms(2)])
  from Execute.run_returns [OF assms(1) this] show "Execute p cs r" unfolding r .
qed

lemma Execute_schedule:
  assumes "initRing uniformSeed p cs = Inr c0" and "runSchedule sch c0 = Step c"
    and "allDone c"
  shows "Execute p cs (Inr (nodes c, stdout c @ finalReport c))"
  by (rule Execute.run_returns [OF assms(1)
        waitAll.returned [OF runSchedule_steps [OF assms(2)] assms(3)]])


text \<open>The frame theorem on the run of \<^verbatim>\<open>Execute(3, 1)\<close> above.\<close>

theorem Run_frame_witness:
  "steps ring3_start ring3_final \<and> length (nodes ring3_final) = length (nodes ring3_start)
   \<and> sameFrame (nodes ring3_start ! 0) (nodes ring3_final ! 0)
   \<and> sameFrame (nodes ring3_start ! 2) (nodes ring3_final ! 2)"
proof -
  from Run_frame [OF ring3_steps]
  have l: "length (nodes ring3_final) = length (nodes ring3_start)"
    and f: "\<And>j. j < length (nodes ring3_start) \<Longrightarrow>
              sameFrame (nodes ring3_start ! j) (nodes ring3_final ! j)"
    by simp_all
  have "sameFrame (nodes ring3_start ! 0) (nodes ring3_final ! 0)"
    by (rule f) (simp add: ring3_start_def)
  moreover have "sameFrame (nodes ring3_start ! 2) (nodes ring3_final ! 2)"
    by (rule f) (simp add: ring3_start_def)
  ultimately show ?thesis using l ring3_steps by simp
qed

lemma wrap64_id: "- (2 ^ 63) \<le> x \<Longrightarrow> x < 2 ^ 63 \<Longrightarrow> wrap64 x = x"
  by (simp add: wrap64_def)

lemma ringOf_1:
  "ringOf 1 chunkSize [d] =
     \<lparr>nodes = [newNode 1 chunkSize 0 d], pcs = [Done], chans = [Chan 2 []], stdout = []\<rparr>"
  by (simp add: ringOf_def loopHead_def newNode_def)

text \<open>
  C7: the degenerate case \<open>P = 1\<close>. For every \<open>chunkSize \<ge> 1\<close> and every initial vector
  \<open>d\<close>, the goroutine of the single participant is done at once: no action of the
  protocol is possible in the initial configuration, in either phase, and the wait
  returns exactly that configuration, so the vector of the participant is its input,
  element for element. The setup of a run with one participant builds this
  configuration (for a chunk size that is a 64-bit integer).
\<close>

theorem single_participant:
  assumes "1 \<le> chunkSize"
  shows "pcs (ringOf 1 chunkSize [d]) = [Done]
         \<and> map Data (nodes (ringOf 1 chunkSize [d])) = [d]
         \<and> (\<forall>c. \<not> step (ringOf 1 chunkSize [d]) c)
         \<and> (\<forall>r. waitAll (ringOf 1 chunkSize [d]) r \<longleftrightarrow> r = Inr (ringOf 1 chunkSize [d]))
         \<and> (chunkSize < 2 ^ 63 \<longrightarrow>
              initRing seed 1 chunkSize =
                Inr (ringOf 1 chunkSize [map (\<lambda>j. seed 0 (int j)) [0..<nat chunkSize]]))"
proof -
  let ?c = "ringOf 1 chunkSize [d]"
  have d: "allDone ?c" by (simp add: allDone_def ringOf_1)
  have 1: "pcs ?c = [Done]" by (simp add: ringOf_1)
  have 2: "map Data (nodes ?c) = [d]" by (simp add: ringOf_1 newNode_def)
  have 3: "\<forall>c. \<not> step ?c c" using allDone_no_step [OF d] by simp
  have 4: "\<forall>r. waitAll ?c r \<longleftrightarrow> r = Inr ?c" using allDone_waitAll [OF d] by simp
  have 5: "chunkSize < 2 ^ 63 \<longrightarrow>
              initRing seed 1 chunkSize =
                Inr (ringOf 1 chunkSize [map (\<lambda>j. seed 0 (int j)) [0..<nat chunkSize]])"
  proof
    assume "chunkSize < 2 ^ 63"
    with assms have "wrap64 chunkSize = chunkSize" by (intro wrap64_id) simp_all
    with assms show "initRing seed 1 chunkSize =
                Inr (ringOf 1 chunkSize [map (\<lambda>j. seed 0 (int j)) [0..<nat chunkSize]])"
      by (simp add: initRing_def)
  qed
  from 1 2 3 4 5 show ?thesis by (intro conjI)
qed

text \<open>One participant, chunk size 3, the vector of ones that \<^verbatim>\<open>Execute(1, 3)\<close> seeds.\<close>

theorem single_participant_witness:
  "initRing uniformSeed 1 3 = Inr (ringOf 1 3 [[1, 1, 1 :: int]])
   \<and> map Data (nodes (ringOf 1 3 [[1, 1, 1 :: int]])) = [[1, 1, 1]]
   \<and> waitAll (ringOf 1 3 [[1, 1, 1 :: int]]) (Inr (ringOf 1 3 [[1, 1, 1]]))"
proof -
  have 1: "(1 :: int) \<le> 3" by simp
  note T = single_participant [OF 1, of "[1, 1, 1 :: int]" "uniformSeed :: int \<Rightarrow> int \<Rightarrow> int"]
  have s: "map (\<lambda>j. (uniformSeed :: int \<Rightarrow> int \<Rightarrow> int) 0 (int j)) [0..<nat 3] = [1, 1, 1]"
    by code_simp
  from T have "initRing (uniformSeed :: int \<Rightarrow> int \<Rightarrow> int) 1 3 =
      Inr (ringOf 1 3 [map (\<lambda>j. (uniformSeed :: int \<Rightarrow> int \<Rightarrow> int) 0 (int j)) [0..<nat 3]])"
    by simp
  then have a: "initRing uniformSeed 1 3 = Inr (ringOf 1 3 [[1, 1, 1 :: int]])"
    unfolding s .
  from T have b: "map Data (nodes (ringOf 1 3 [[1, 1, 1 :: int]])) = [[1, 1, 1]]"
    by (rule conjunct1 [OF conjunct2])
  from T have "\<forall>r. waitAll (ringOf 1 3 [[1, 1, 1 :: int]]) r
                 \<longleftrightarrow> r = Inr (ringOf 1 3 [[1, 1, 1]])"
    by (elim conjE)
  then have c: "waitAll (ringOf 1 3 [[1, 1, 1 :: int]]) (Inr (ringOf 1 3 [[1, 1, 1]]))"
    by simp
  from a b c show ?thesis by (intro conjI)
qed

section \<open>The invariant of a run\<close>

subsection \<open>Go primitives on well-formed arguments\<close>

lemma smod_nonneg: "0 \<le> a \<Longrightarrow> 0 < b \<Longrightarrow> (a::int) smod b = a mod b"
  by (cases "a = 0") (simp_all add: smod_int_alt_def)

lemma chunk_bound: "c < p \<Longrightarrow> c * cs + cs \<le> p * (cs::nat)"
proof -
  assume "c < p"
  then have "Suc c \<le> p" by simp
  then have "Suc c * cs \<le> p * cs" by (rule mult_le_mono1)
  then show ?thesis by (simp add: add.commute)
qed

lemma slice_ok:
  assumes "c * cs + cs \<le> length d"
  shows "slice d (int c * int cs) (int c * int cs + int cs) = Inr (take cs (drop (c * cs) d))"
proof -
  have "int c * int cs + int cs \<le> int (length d)"
    using assms(1) by (metis of_nat_add of_nat_le_iff of_nat_mult)
  moreover have "nat (int c * int cs) = c * cs" by (simp add: nat_mult_distrib)
  ultimately show ?thesis by (simp add: slice_def)
qed

lemma buildMsg_ok:
  assumes "ChunkSize proc = int cs" and "c * cs + cs \<le> length (Data proc)"
  shows "buildMsg proc (int c) = Inr (Msg (int c) (getChunk cs c (Data proc)))"
proof -
  have s: "slice (Data proc) (int c * int cs) (int c * int cs + int cs)
           = Inr (take cs (drop (c * cs) (Data proc)))"
    by (rule slice_ok [OF assms(2)])
  have l: "length (take cs (drop (c * cs) (Data proc))) = cs"
    using assms(2) by simp
  have "copy (replicate cs 0) (take cs (drop (c * cs) (Data proc)))
        = take cs (drop (c * cs) (Data proc))"
    unfolding copy_def l by simp
  then show ?thesis
    by (simp add: buildMsg_def assms(1) make_def s getChunk_def)
qed

lemma reduceLoop_ok_aux:
  assumes "st + cs \<le> length d" and "cs \<le> length r"
  shows "n = cs - i \<Longrightarrow> i \<le> cs \<Longrightarrow> st + cs \<le> length d \<Longrightarrow>
         reduceLoop (int cs) (int st) r (int i) d =
           Inr (map (\<lambda>j. if st + i \<le> j \<and> j < st + cs then d ! j + r ! (j - st) else d ! j)
                  [0..<length d])"
proof (induction n arbitrary: i d)
  case 0
  then have i: "i = cs" by simp
  have "map (\<lambda>j. if st + cs \<le> j \<and> j < st + cs then d ! j + r ! (j - st) else d ! j)
                  [0..<length d] = d"
    by (rule nth_equalityI) auto
  moreover have "reduceLoop (int cs) (int st) r (int cs) d = Inr d"
    by (subst reduceLoop.simps) simp
  ultimately show ?case by (simp add: i)
next
  case (Suc n)
  then have i: "i < cs" by simp
  let ?d = "d[st + i := d ! (st + i) + r ! i]"
  have ih: "reduceLoop (int cs) (int st) r (int (Suc i)) ?d =
           Inr (map (\<lambda>j. if st + Suc i \<le> j \<and> j < st + cs then ?d ! j + r ! (j - st) else ?d ! j)
                  [0..<length ?d])"
    using Suc.prems i by (intro Suc.IH) simp_all
  have eq: "map (\<lambda>j. if st + Suc i \<le> j \<and> j < st + cs then ?d ! j + r ! (j - st) else ?d ! j)
                  [0..<length ?d]
        = map (\<lambda>j. if st + i \<le> j \<and> j < st + cs then d ! j + r ! (j - st) else d ! j)
                  [0..<length d]"
    using Suc.prems(3) i by (auto simp: nth_list_update)
  have g: "0 \<le> int st + int i \<and> int st + int i < int (length d) \<and> 0 \<le> int i \<and> int i < int (length r)"
    using Suc.prems(3) i assms(2) by simp
  have n: "nat (int st + int i) = st + i" by simp
  have step: "reduceLoop (int cs) (int st) r (int i) d
        = reduceLoop (int cs) (int st) r (int i + 1) ?d"
    using i g by (subst reduceLoop.simps) (simp add: n)
  have "int i + 1 = int (Suc i)" by simp
  with step ih eq show ?case by simp
qed

lemma reduceLoop_ok:
  assumes "c * cs + cs \<le> length d" and "cs \<le> length r"
  shows "reduceLoop (int cs) (int c * int cs) r 0 d = Inr (addChunk cs c d r)"
proof -
  have "reduceLoop (int cs) (int (c * cs)) r (int 0) d =
           Inr (map (\<lambda>j. if c * cs + 0 \<le> j \<and> j < c * cs + cs then d ! j + r ! (j - c * cs) else d ! j)
                  [0..<length d])"
    using assms by (intro reduceLoop_ok_aux [where n = "cs - 0"]) simp_all
  then show ?thesis by (simp add: addChunk_def)
qed

lemma allgather_copy_ok:
  assumes "c * cs + cs \<le> length d" and "length r = cs"
  shows "andThen (slice d (int c * int cs) (int c * int cs + int cs))
           (\<lambda>dst. Inr (take (nat (int c * int cs)) d @ copy dst r
                        @ drop (nat (int c * int cs + int cs)) d))
         = Inr (putChunk cs c d r)"
proof -
  have 1: "nat (int c * int cs) = c * cs" by (simp add: nat_mult_distrib)
  have 2: "nat (int c * int cs + int cs) = c * cs + cs"
    by (metis nat_int of_nat_add of_nat_mult)
  have l: "length (take cs (drop (c * cs) d)) = cs" using assms(1) by simp
  have 3: "copy (take cs (drop (c * cs) d)) r = r"
    using l assms(2) by (simp add: copy_def)
  show ?thesis
    unfolding slice_ok [OF assms(1)] andThen_simps 1 2 3 putChunk_def ..
qed

subsection \<open>Indices\<close>

lemma prev_lt: "0 < p \<Longrightarrow> prev p i < p"
  by (simp add: prev_def)

lemma sIdx_lt: "0 < p \<Longrightarrow> sIdx p i k < p"
  by (simp add: sIdx_def)

lemma rIdx_lt: "0 < p \<Longrightarrow> rIdx p i k < p"
  by (simp add: rIdx_def)

lemma goRem_nat: "0 < p \<Longrightarrow> 0 \<le> a \<Longrightarrow> goRem a (int p) = Inr (int (nat a mod p))"
  by (simp add: goRem_def smod_nonneg zmod_int)

lemma sendIdx_ok:
  assumes "Rank proc = int i" and "P proc = int p" and "pcOk p (Send ph s)"
  shows "sendIdx ph proc s = Inr (int (sIdx p i (kof p (Send ph s))))"
proof (cases ph)
  case ReduceScatter
  from assms(3) have s: "0 \<le> s" "s < int p - 1" by simp_all
  then have "nat (int i - s + int p) = i + p - nat s" by linarith
  moreover from s have "nat s < p - 1" by linarith
  ultimately show ?thesis
    using s by (simp add: sendIdx_def ReduceScatter assms(1,2) goRem_nat sIdx_def)
next
  case Allgather
  from assms(3) have s: "0 \<le> s" "s < int p - 1" by simp_all
  then have "nat (int i + 1 + s) = i + 1 + nat s" by linarith
  then show ?thesis
    using s by (simp add: sendIdx_def Allgather assms(1,2) goRem_nat sIdx_def)
qed

lemma recvIdx_ok:
  assumes "Rank proc = int i" and "P proc = int p" and "pcOk p (Send ph s)"
  shows "recvIdx ph proc s = Inr (int (rIdx p i (kof p (Send ph s))))"
proof (cases ph)
  case ReduceScatter
  from assms(3) have s: "0 \<le> s" "s < int p - 1" by simp_all
  then have "nat (int i - s - 1 + int p) = i + p - nat s - 1" by linarith
  moreover from s have "nat s < p - 1" by linarith
  ultimately show ?thesis
    using s by (simp add: recvIdx_def ReduceScatter assms(1,2) goRem_nat rIdx_def)
next
  case Allgather
  from assms(3) have s: "0 \<le> s" "s < int p - 1" by simp_all
  then have "nat (int i + 2 + s) = i + 2 + nat s" by linarith
  then show ?thesis
    using s by (simp add: recvIdx_def Allgather assms(1,2) goRem_nat rIdx_def)
qed

subsection \<open>Lengths in the lockstep computation\<close>

lemma getChunk_length: "c * cs + cs \<le> length d \<Longrightarrow> length (getChunk cs c d) = cs"
  by (simp add: getChunk_def)

lemma addChunk_length: "length (addChunk cs c d r) = length d"
  by (simp add: addChunk_def)

lemma putChunk_length:
  "c * cs + cs \<le> length d \<Longrightarrow> length r = cs \<Longrightarrow> length (putChunk cs c d r) = length d"
  by (simp add: putChunk_def)

lemma lock_length: "wfX p cs X \<Longrightarrow> length (lock p cs X k) = p"
  by (cases k) (simp_all add: wfX_def lock.simps(2))

lemma lock_Suc_nth:
  "i < p \<Longrightarrow> lock p cs X (Suc k) ! i =
     (if k < p - 1 then addChunk else putChunk) cs (rIdx p i k) (lock p cs X k ! i)
        (getChunk cs (sIdx p (prev p i) k) (lock p cs X k ! prev p i))"
  by simp

declare lock.simps(2) [simp del]

lemma lock_length2: "wfX p cs X \<Longrightarrow> i < p \<Longrightarrow> length (lock p cs X k ! i) = p * cs"
proof (induction k arbitrary: i)
  case 0
  then show ?case by (simp add: wfX_def)
next
  case (Suc k)
  from Suc.prems have p: "0 < p" by simp
  have 1: "length (lock p cs X k ! i) = p * cs" using Suc by simp
  have 2: "length (lock p cs X k ! prev p i) = p * cs" using Suc prev_lt [OF p] by simp
  have 3: "length (getChunk cs (sIdx p (prev p i) k) (lock p cs X k ! prev p i)) = cs"
    using chunk_bound [OF sIdx_lt [OF p]] by (simp add: getChunk_length 2)
  have 4: "rIdx p i k * cs + cs \<le> length (lock p cs X k ! i)"
    using chunk_bound [OF rIdx_lt [OF p]] by (simp add: 1)
  show ?case
    unfolding lock_Suc_nth [OF Suc.prems(2)]
    by (simp add: addChunk_length putChunk_length [OF 4 3] 1)
qed

lemma msgOf_length:
  assumes "wfX p cs X" and "i < p"
  shows "length (MsgData (msgOf p cs X i k)) = cs"
proof -
  from assms have p: "0 < p" by simp
  show ?thesis
    using chunk_bound [OF sIdx_lt [OF p]]
    by (simp add: msgOf_def getChunk_length lock_length2 [OF assms])
qed

subsection \<open>The actions of a goroutine under the invariant\<close>

lemma loopHead_Data: "loopHead ph (proc\<lparr>Data := d\<rparr>) s = loopHead ph proc s"
  by (simp add: loopHead_def)

lemma inv_node:
  "ringInv p cs X c \<Longrightarrow> i < p \<Longrightarrow>
     nodes c ! i = \<lparr>Rank = int i, P = int p, ChunkSize = int cs,
                      Data = lock p cs X (kof p (pcs c ! i)) ! i, In = i, Out = Suc i mod p\<rparr>"
  by (simp add: ringInv_def)

lemma inv_pcOk: "ringInv p cs X c \<Longrightarrow> i < p \<Longrightarrow> pcOk p (pcs c ! i)"
  by (simp add: ringInv_def)

lemma inv_chan:
  "ringInv p cs X c \<Longrightarrow> i < p \<Longrightarrow>
     chans c ! i = Chan 2 (map (msgOf p cs X (prev p i))
                            [kof p (pcs c ! i) ..< sentof p (pcs c ! prev p i)])"
  by (simp add: ringInv_def)

lemma inv_le: "ringInv p cs X c \<Longrightarrow> i < p \<Longrightarrow> kof p (pcs c ! i) \<le> sentof p (pcs c ! prev p i)"
  by (simp add: ringInv_def)

lemma inv_lengths:
  "ringInv p cs X c \<Longrightarrow> length (nodes c) = p \<and> length (pcs c) = p \<and> length (chans c) = p"
  by (simp add: ringInv_def)

lemma inv_send:
  assumes "ringInv p cs X c" and "wfX p cs X" and "i < p" and "pcs c ! i = Send ph s"
  shows "goStep c i =
     (if length (buf (chans c ! (Suc i mod p))) < 2
      then Step (c\<lparr>chans := (chans c)[Suc i mod p :=
                       Chan 2 (buf (chans c ! (Suc i mod p)) @ [msgOf p cs X i (kof p (Send ph s))])],
                   pcs := (pcs c)[i := Recv ph s]\<rparr>)
      else Blocked)"
proof -
  let ?k = "kof p (Send ph s)"
  let ?n = "nodes c ! i"
  from assms(3) have p: "0 < p" by simp
  have n: "?n = \<lparr>Rank = int i, P = int p, ChunkSize = int cs,
                  Data = lock p cs X ?k ! i, In = i, Out = Suc i mod p\<rparr>"
    using inv_node [OF assms(1,3)] assms(4) by simp
  have ok: "pcOk p (Send ph s)" using inv_pcOk [OF assms(1,3)] assms(4) by simp
  have si: "sendIdx ph ?n s = Inr (int (sIdx p i ?k))"
    by (rule sendIdx_ok [OF _ _ ok]) (simp_all add: n)
  have ri: "recvIdx ph ?n s = Inr (int (rIdx p i ?k))"
    by (rule recvIdx_ok [OF _ _ ok]) (simp_all add: n)
  have bm: "buildMsg ?n (int (sIdx p i ?k)) = Inr (msgOf p cs X i ?k)"
  proof -
    have "sIdx p i ?k * cs + cs \<le> length (Data ?n)"
      using chunk_bound [OF sIdx_lt [OF p]] by (simp add: n lock_length2 [OF assms(2,3)])
    from buildMsg_ok [where cs = cs, OF _ this] show ?thesis
      by (simp add: n msgOf_def)
  qed
  have o: "Out ?n = Suc i mod p" by (simp add: n)
  have lt: "Suc i mod p < p" using p by simp
  have cp: "cap (chans c ! (Suc i mod p)) = 2"
    using inv_chan [OF assms(1) lt] by simp
  have len: "length (chans c) = p" using inv_lengths [OF assms(1)] by simp
  show ?thesis
    unfolding goStep_def Let_def assms(4) pc.case si ri andThen_simps bm sum.case o cp len
    using lt by simp
qed

lemma inv_recv:
  assumes "ringInv p cs X c" and "wfX p cs X" and "i < p" and "pcs c ! i = Recv ph s"
  shows "goStep c i =
     (if buf (chans c ! i) \<noteq> []
      then Step (c\<lparr>nodes := (nodes c)[i := (nodes c ! i)
                       \<lparr>Data := lock p cs X (Suc (kof p (Recv ph s))) ! i\<rparr>],
                   pcs := (pcs c)[i := loopHead ph (nodes c ! i) (s + 1)],
                   chans := (chans c)[i := Chan 2 (tl (buf (chans c ! i)))],
                   stdout := stdout c @
                     (if int (sIdx p (prev p i) (kof p (Recv ph s))) \<noteq> int (rIdx p i (kof p (Recv ph s)))
                      then [Expected ph (int i) (int (rIdx p i (kof p (Recv ph s))))
                              (int (sIdx p (prev p i) (kof p (Recv ph s))))]
                      else [])\<rparr>)
      else Blocked)"
proof (cases "buf (chans c ! i) = []")
  case True
  have "In (nodes c ! i) = i" using inv_node [OF assms(1,3)] by simp
  with True show ?thesis
    by (simp add: goStep_def assms(4))
next
  case False
  let ?k = "kof p (Recv ph s)"
  let ?N = "\<lparr>Rank = int i, P = int p, ChunkSize = int cs,
             Data = lock p cs X ?k ! i, In = i, Out = Suc i mod p\<rparr>"
  let ?j = "prev p i"
  let ?m = "msgOf p cs X ?j ?k"
  let ?r = "rIdx p i ?k"
  from assms(3) have p: "0 < p" by simp
  have j: "?j < p" by (rule prev_lt [OF p])
  have n: "nodes c ! i = ?N"
    using inv_node [OF assms(1,3)] assms(4) by simp
  have ok: "pcOk p (Send ph s)" using inv_pcOk [OF assms(1,3)] assms(4) by simp
  have kk: "kof p (Send ph s) = ?k" by (cases ph) simp_all
  have ri: "recvIdx ph ?N s = Inr (int ?r)"
    using recvIdx_ok [OF _ _ ok, of ?N i] by (simp add: kk)
  have ch: "chans c ! i = Chan 2 (map (msgOf p cs X ?j) [?k ..< sentof p (pcs c ! ?j)])"
    using inv_chan [OF assms(1,3)] assms(4) by simp
  with False have lt: "?k < sentof p (pcs c ! ?j)" by (cases "?k < sentof p (pcs c ! ?j)") simp_all
  have hd: "hd (buf (chans c ! i)) = ?m"
    using lt by (simp add: ch upt_conv_Cons)
  have ld: "length (lock p cs X ?k ! i) = p * cs" by (rule lock_length2 [OF assms(2,3)])
  have lm: "length (MsgData ?m) = cs" by (rule msgOf_length [OF assms(2) j])
  have b: "?r * cs + cs \<le> length (lock p cs X ?k ! i)"
    using chunk_bound [OF rIdx_lt [OF p]] by (simp add: ld)
  have ph: "?k < p - 1 \<longleftrightarrow> ph = ReduceScatter"
    using ok by (cases ph) auto
  have ci: "ChunkIdx ?m = int (sIdx p ?j ?k)" by (simp add: msgOf_def)
  have rc: "receive ph ?N s ?m =
      Inr (?N\<lparr>Data := lock p cs X (Suc ?k) ! i\<rparr>,
           if int (sIdx p ?j ?k) \<noteq> int ?r
           then [Expected ph (int i) (int ?r) (int (sIdx p ?j ?k))] else [])"
  proof (cases ph)
    case ReduceScatter
    have 1: "reduceLoop (int cs) (int ?r * int cs) (MsgData ?m) 0 (lock p cs X ?k ! i)
          = Inr (addChunk cs ?r (lock p cs X ?k ! i) (MsgData ?m))"
      by (rule reduceLoop_ok [OF b]) (simp add: lm)
    have 2: "lock p cs X (Suc ?k) ! i = addChunk cs ?r (lock p cs X ?k ! i) (MsgData ?m)"
      using ph ReduceScatter by (simp add: lock_Suc_nth [OF assms(3)] msgOf_def)
    show ?thesis
      unfolding receive_def ri andThen_simps Let_def ci 2
      using ReduceScatter 1 by simp
  next
    case Allgather
    have 1: "andThen (slice (lock p cs X ?k ! i) (int ?r * int cs) (int ?r * int cs + int cs))
           (\<lambda>dst. Inr (take (nat (int ?r * int cs)) (lock p cs X ?k ! i)
                        @ copy dst (MsgData ?m)
                        @ drop (nat (int ?r * int cs + int cs)) (lock p cs X ?k ! i)))
         = Inr (putChunk cs ?r (lock p cs X ?k ! i) (MsgData ?m))"
      by (rule allgather_copy_ok [OF b lm])
    have 2: "lock p cs X (Suc ?k) ! i = putChunk cs ?r (lock p cs X ?k ! i) (MsgData ?m)"
      using ph Allgather by (simp add: lock_Suc_nth [OF assms(3)] msgOf_def)
    show ?thesis
      unfolding receive_def ri andThen_simps Let_def ci 2
      using Allgather 1 by (simp add: andThen_def split: sum.splits)
  qed
  have i: "In ?N = i" by simp
  have cp: "cap (chans c ! i) = 2" by (simp add: ch)
  have len: "length (chans c) = p" using inv_lengths [OF assms(1)] by simp
  show ?thesis
    unfolding goStep_def Let_def assms(4) pc.case n i hd rc sum.case prod.case cp len loopHead_Data
    using False assms(3) by simp
qed

lemma prev_succ: "i < p \<Longrightarrow> prev p (Suc i mod p) = i"
proof (cases "Suc i < p")
  case True
  assume "i < p"
  with True show ?thesis by (simp add: prev_def)
next
  case False
  assume "i < p"
  with False have "Suc i = p" by simp
  then show ?thesis by (auto simp: prev_def)
qed

lemma succ_prev: "j < p \<Longrightarrow> Suc (prev p j) mod p = j"
proof (cases j)
  case 0
  assume "j < p"
  with 0 have "(p - 1) mod p = p - 1" by simp
  with 0 \<open>j < p\<close> show ?thesis by (simp add: prev_def)
next
  case (Suc n)
  assume "j < p"
  with Suc have "(j + p - 1) mod p = n" by simp
  with Suc \<open>j < p\<close> show ?thesis by (simp add: prev_def)
qed

lemma kof_Recv_Send: "kof p (Recv ph s) = kof p (Send ph s)"
  by (cases ph) simp_all

lemma loopHead_next:
  assumes "pcOk p (Recv ph s)" and "P proc = int p"
  shows "pcOk p (loopHead ph proc (s + 1))
         \<and> kof p (loopHead ph proc (s + 1)) = Suc (kof p (Recv ph s))
         \<and> sentof p (loopHead ph proc (s + 1)) = Suc (kof p (Recv ph s))"
proof -
  from assms(1) have s: "0 \<le> s" "s < int p - 1" by simp_all
  show ?thesis
  proof (cases "s + 1 < int p - 1")
    case True
    with s have "nat (s + 1) = Suc (nat s)" by linarith
    with True s show ?thesis
      by (cases ph) (simp_all add: loopHead_def assms(2))
  next
    case False
    with s have "Suc (nat s) = p - 1" by linarith
    with False s show ?thesis
      by (cases ph) (simp_all add: loopHead_def assms(2))
  qed
qed

lemma inv_step_send:
  assumes I: "ringInv p cs X c" and W: "wfX p cs X" and i: "i < p" and q: "pcs c ! i = Send ph s"
    and full: "length (buf (chans c ! (Suc i mod p))) < 2"
  shows "ringInv p cs X (c\<lparr>chans := (chans c)[Suc i mod p :=
                       Chan 2 (buf (chans c ! (Suc i mod p)) @ [msgOf p cs X i (kof p (Send ph s))])],
                   pcs := (pcs c)[i := Recv ph s]\<rparr>)"
    (is "ringInv p cs X ?c'")
proof -
  let ?S = "Suc i mod p"
  let ?k = "kof p (Send ph s)"
  note L = inv_lengths [OF I]
  have S: "?S < p" using i by simp
  have K: "kof p (pcs ?c' ! j) = kof p (pcs c ! j)" if "j < p" for j
    using that L q by (cases "j = i") (simp_all add: kof_Recv_Send)
  have T: "sentof p (pcs ?c' ! j) = (if j = i then Suc ?k else sentof p (pcs c ! j))" if "j < p" for j
    using that L q by (cases "j = i") (simp_all add: kof_Recv_Send)
  have Ti: "sentof p (pcs c ! i) = ?k" using q by simp
  show ?thesis
    unfolding ringInv_def
  proof (intro conjI allI impI)
    show "length (nodes ?c') = p" "length (pcs ?c') = p" "length (chans ?c') = p"
      using L by simp_all
  next
    fix j assume j: "j < p"
    show "nodes ?c' ! j = \<lparr>Rank = int j, P = int p, ChunkSize = int cs,
            Data = lock p cs X (kof p (pcs ?c' ! j)) ! j, In = j, Out = Suc j mod p\<rparr>"
      unfolding K [OF j] using inv_node [OF I j] by simp
    show "pcOk p (pcs ?c' ! j)"
      using inv_pcOk [OF I j] L q j by (cases "j = i") simp_all
    have pj: "prev p j < p" using j by (simp add: prev_lt)
    show "kof p (pcs ?c' ! j) \<le> sentof p (pcs ?c' ! prev p j)"
      unfolding K [OF j] T [OF pj] using inv_le [OF I j] Ti by auto
    show "chans ?c' ! j = Chan 2 (map (msgOf p cs X (prev p j))
            [kof p (pcs ?c' ! j) ..< sentof p (pcs ?c' ! prev p j)])"
    proof (cases "j = ?S")
      case True
      have pi: "prev p j = i" using True prev_succ [OF i] by simp
      have le: "kof p (pcs c ! j) \<le> ?k" using inv_le [OF I j] pi Ti by simp
      have "chans ?c' ! j = Chan 2 (buf (chans c ! j) @ [msgOf p cs X i ?k])"
        using True L j by simp
      also have "buf (chans c ! j) = map (msgOf p cs X i) [kof p (pcs c ! j) ..< ?k]"
        using inv_chan [OF I j] pi Ti by simp
      finally show ?thesis
        unfolding K [OF j] pi T [OF i] using le by simp
    next
      case False
      have "prev p j \<noteq> i" using succ_prev [OF j] False by auto
      with False show ?thesis
        unfolding K [OF j] T [OF pj] using inv_chan [OF I j] L by simp
    qed
  qed
qed

lemma inv_step_recv:
  assumes I: "ringInv p cs X c" and W: "wfX p cs X" and i: "i < p" and q: "pcs c ! i = Recv ph s"
    and ne: "buf (chans c ! i) \<noteq> []"
  shows "ringInv p cs X (c\<lparr>nodes := (nodes c)[i := (nodes c ! i)
                       \<lparr>Data := lock p cs X (Suc (kof p (Recv ph s))) ! i\<rparr>],
                   pcs := (pcs c)[i := loopHead ph (nodes c ! i) (s + 1)],
                   chans := (chans c)[i := Chan 2 (tl (buf (chans c ! i)))],
                   stdout := out\<rparr>)"
    (is "ringInv p cs X ?c'")
proof -
  let ?k = "kof p (Recv ph s)"
  let ?q = "loopHead ph (nodes c ! i) (s + 1)"
  note L = inv_lengths [OF I]
  have ok: "pcOk p (Recv ph s)" using inv_pcOk [OF I i] q by simp
  have Pn: "P (nodes c ! i) = int p" using inv_node [OF I i] by simp
  note N = loopHead_next [OF ok Pn]
  have K: "kof p (pcs ?c' ! j) = (if j = i then Suc ?k else kof p (pcs c ! j))" if "j < p" for j
    using that L N by (cases "j = i") simp_all
  have T: "sentof p (pcs ?c' ! j) = sentof p (pcs c ! j)" if "j < p" for j
    using that L N q by (cases "j = i") simp_all
  have ch: "chans c ! i = Chan 2 (map (msgOf p cs X (prev p i)) [?k ..< sentof p (pcs c ! prev p i)])"
    using inv_chan [OF I i] q by simp
  with ne have lt: "?k < sentof p (pcs c ! prev p i)"
    by (cases "?k < sentof p (pcs c ! prev p i)") simp_all
  show ?thesis
    unfolding ringInv_def
  proof (intro conjI allI impI)
    show "length (nodes ?c') = p" "length (pcs ?c') = p" "length (chans ?c') = p"
      using L by simp_all
  next
    fix j assume j: "j < p"
    have pj: "prev p j < p" using j by (simp add: prev_lt)
    show "nodes ?c' ! j = \<lparr>Rank = int j, P = int p, ChunkSize = int cs,
            Data = lock p cs X (kof p (pcs ?c' ! j)) ! j, In = j, Out = Suc j mod p\<rparr>"
      unfolding K [OF j] using inv_node [OF I j] L j by (cases "j = i") simp_all
    show "pcOk p (pcs ?c' ! j)"
      using inv_pcOk [OF I j] L N j by (cases "j = i") simp_all
    show "kof p (pcs ?c' ! j) \<le> sentof p (pcs ?c' ! prev p j)"
      unfolding K [OF j] T [OF pj] using inv_le [OF I j] lt by auto
    show "chans ?c' ! j = Chan 2 (map (msgOf p cs X (prev p j))
            [kof p (pcs ?c' ! j) ..< sentof p (pcs ?c' ! prev p j)])"
    proof (cases "j = i")
      case True
      have "tl (map (msgOf p cs X (prev p i)) [?k ..< sentof p (pcs c ! prev p i)])
            = map (msgOf p cs X (prev p i)) [Suc ?k ..< sentof p (pcs c ! prev p i)]"
        by (simp add: map_tl [symmetric] tl_upt del: map_tl)
      with True show ?thesis
        unfolding K [OF j] T [OF pj] using ch L i by simp
    next
      case False
      then show ?thesis
        unfolding K [OF j] T [OF pj] using inv_chan [OF I j] L by simp
    qed
  qed
qed

lemma inv_cong:
  "nodes c1 = nodes c2 \<Longrightarrow> pcs c1 = pcs c2 \<Longrightarrow> chans c1 = chans c2
     \<Longrightarrow> ringInv p cs X c1 = ringInv p cs X c2"
  by (simp add: ringInv_def)

lemma inv_step:
  assumes "ringInv p cs X c" and "wfX p cs X" and "step c c'"
  shows "ringInv p cs X c'"
proof -
  from assms(3) obtain i where i: "i < length (pcs c)" and g: "goStep c i = Step c'"
    by (auto simp: step_def)
  from i have ip: "i < p" using inv_lengths [OF assms(1)] by simp
  show ?thesis
  proof (cases "pcs c ! i")
    case (Send ph s)
    from g inv_step_send [OF assms(1,2) ip Send] show ?thesis
      unfolding inv_send [OF assms(1,2) ip Send] by (auto split: if_splits)
  next
    case (Recv ph s)
    let ?d = "c\<lparr>nodes := (nodes c)[i := (nodes c ! i)
                       \<lparr>Data := lock p cs X (Suc (kof p (Recv ph s))) ! i\<rparr>],
                   pcs := (pcs c)[i := loopHead ph (nodes c ! i) (s + 1)],
                   chans := (chans c)[i := Chan 2 (tl (buf (chans c ! i)))],
                   stdout := []\<rparr>"
    from g have ne: "buf (chans c ! i) \<noteq> []"
      unfolding inv_recv [OF assms(1,2) ip Recv] by (simp split: if_splits)
    with g have "nodes c' = nodes ?d \<and> pcs c' = pcs ?d \<and> chans c' = chans ?d"
      unfolding inv_recv [OF assms(1,2) ip Recv] by auto
    then have "ringInv p cs X c' = ringInv p cs X ?d"
      by (intro inv_cong) simp_all
    with inv_step_recv [OF assms(1,2) ip Recv ne] show ?thesis by simp
  next
    case Done
    with g show ?thesis by (simp add: goStep_def)
  qed
qed

lemma inv_steps:
  assumes "steps c c'" and "ringInv p cs X c" and "wfX p cs X"
  shows "ringInv p cs X c'"
  using assms(1,2)
proof (induction rule: steps_induct)
  case refl
  then show ?case .
next
  case (step d d')
  then show ?case using inv_step [OF _ assms(3)] by blast
qed

lemma inv_no_panic:
  assumes "ringInv p cs X c" and "wfX p cs X" and "i < p"
  shows "goStep c i \<noteq> Panic e"
proof (cases "pcs c ! i")
  case (Send ph s)
  show ?thesis unfolding inv_send [OF assms Send] by simp
next
  case (Recv ph s)
  show ?thesis unfolding inv_recv [OF assms Recv] by simp
next
  case Done
  then show ?thesis by (simp add: goStep_def)
qed

lemma wfX_seedData: "wfX p cs (seedData seed p cs)"
  by (simp add: wfX_def seedData_def)

lemma newNode_nat:
  assumes "i < p"
  shows "newNode (int p) (int cs) (int i) d =
     \<lparr>Rank = int i, P = int p, ChunkSize = int cs, Data = d, In = i, Out = Suc i mod p\<rparr>"
proof -
  have "(int i + 1) smod int p = (int i + 1) mod int p"
    using assms by (intro smod_nonneg) simp_all
  also have "\<dots> = int (Suc i mod p)" by (simp add: zmod_int add.commute)
  finally have 2: "nat ((int i + 1) smod int p) = Suc i mod p" by simp
  show ?thesis
    using assms by (simp add: newNode_def 2)
qed

lemma ringOf_nat:
  assumes "0 < p"
  shows "ringOf (int p) (int cs) X =
     \<lparr>nodes = map (\<lambda>i. newNode (int p) (int cs) (int i) (X ! i)) [0..<p],
      pcs = replicate p (if 1 < p then Send ReduceScatter 0 else Done),
      chans = replicate p (Chan 2 []), stdout = []\<rparr>"
proof -
  have "map (\<lambda>i. loopHead ReduceScatter (newNode (int p) (int cs) (int i) (X ! i)) 0) [0..<p]
        = replicate p (if 1 < p then Send ReduceScatter 0 else Done)"
    by (rule nth_equalityI) (auto simp: loopHead_def newNode_def)
  then show ?thesis
    using assms by (simp add: ringOf_def)
qed

lemma ringOf_inv:
  assumes "0 < p"
  shows "ringInv p cs X (ringOf (int p) (int cs) X) \<and> stdout (ringOf (int p) (int cs) X) = []"
proof -
  let ?q = "if 1 < p then Send ReduceScatter 0 else Done"
  let ?c0 = "ringOf (int p) (int cs) X"
  note c0 = ringOf_nat [OF assms, of cs X]
  have k: "kof p ?q = 0" using assms(1) by auto
  have t: "sentof p ?q = 0" using assms(1) by auto
  have ok: "pcOk p ?q" by simp
  have "ringInv p cs X ?c0"
    unfolding ringInv_def
  proof (intro conjI allI impI)
    show "length (nodes ?c0) = p" "length (pcs ?c0) = p" "length (chans ?c0) = p"
      by (simp_all add: c0)
  next
    fix i assume i: "i < p"
    then have pi: "prev p i < p" by (simp add: prev_lt)
    have q: "pcs ?c0 ! i = ?q" "pcs ?c0 ! prev p i = ?q" using i pi by (simp_all add: c0)
    show "nodes ?c0 ! i = \<lparr>Rank = int i, P = int p, ChunkSize = int cs,
            Data = lock p cs X (kof p (pcs ?c0 ! i)) ! i,
            In = i, Out = Suc i mod p\<rparr>"
      unfolding q k using i by (simp add: c0 newNode_nat)
    show "pcOk p (pcs ?c0 ! i)" unfolding q by (rule ok)
    show "kof p (pcs ?c0 ! i) \<le> sentof p (pcs ?c0 ! prev p i)" unfolding q k t by simp
    show "chans ?c0 ! i = Chan 2 (map (msgOf p cs X (prev p i))
            [kof p (pcs ?c0 ! i) ..< sentof p (pcs ?c0 ! prev p i)])"
      unfolding q k t using i by (simp add: c0)
  qed
  then show ?thesis by (simp add: c0)
qed

lemma initRing_ringOf:
  assumes "1 \<le> p" and "0 \<le> cs" and "p * cs < 2 ^ 63"
  shows "initRing seed p cs = Inr (ringOf p cs (seedData seed (nat p) (nat cs)))"
proof -
  from assms(1,2) have "0 \<le> p * cs" by simp
  with assms(3) have w: "wrap64 (p * cs) = p * cs" by (intro wrap64_id) simp_all
  have n: "nat (p * cs) = nat p * nat cs" using assms(1,2) by (simp add: nat_mult_distrib)
  from assms(1) \<open>0 \<le> p * cs\<close> show ?thesis
    by (simp add: initRing_def w n seedData_def)
qed

subsection \<open>Progress and termination\<close>

lemma kof_le_sentof: "kof p q \<le> sentof p q"
  by (cases q) simp_all

lemma pcOk_bound:
  assumes "pcOk p q" and "q \<noteq> Done"
  shows "kof p q < 2 * (p - 1) \<and> kof p q + sentof p q < 4 * (p - 1)"
proof (cases q)
  case (Send ph s)
  with assms(1) have "nat s < p - 1" by simp linarith
  with Send show ?thesis by (cases ph) auto
next
  case (Recv ph s)
  with assms(1) have "nat s < p - 1" by simp linarith
  with Recv show ?thesis by (cases ph) auto
next
  case Done
  with assms(2) show ?thesis by simp
qed

lemma inv_progress:
  assumes I: "ringInv p cs X c" and W: "wfX p cs X" and nd: "\<not> allDone c"
  shows "\<exists>i<p. \<exists>c'. goStep c i = Step c'"
proof -
  note L = inv_lengths [OF I]
  from nd L obtain j0 where j0: "j0 < p" "pcs c ! j0 \<noteq> Done"
    by (auto simp: allDone_def in_set_conv_nth)
  from ex_has_least_nat [of "\<lambda>j. j < p" j0 "\<lambda>j. kof p (pcs c ! j)"] j0(1)
  obtain m where m: "m < p" and least: "\<And>j. j < p \<Longrightarrow> kof p (pcs c ! m) \<le> kof p (pcs c ! j)"
    by blast
  have "kof p (pcs c ! j0) < 2 * (p - 1)"
    using pcOk_bound [OF inv_pcOk [OF I j0(1)] j0(2)] by simp
  with least [OF j0(1)] have km: "kof p (pcs c ! m) < 2 * (p - 1)" by simp
  have send: "\<exists>c'. goStep c i = Step c'"
    if i: "i < p" and q: "pcs c ! i = Send ph s" and e: "kof p (pcs c ! i) = kof p (pcs c ! m)"
    for i ph s
  proof -
    have S: "Suc i mod p < p" using i by simp
    have "sentof p (pcs c ! i) \<le> kof p (pcs c ! (Suc i mod p))"
      using least [OF S] e q by simp
    then have "buf (chans c ! (Suc i mod p)) = []"
      using inv_chan [OF I S] prev_succ [OF i] by simp
    then show ?thesis
      unfolding inv_send [OF I W i q] by simp
  qed
  show ?thesis
  proof (cases "pcs c ! m")
    case (Send ph s)
    from send [OF m Send] m show ?thesis by blast
  next
    case Done
    with km show ?thesis by simp
  next
    case (Recv ph s)
    let ?j = "prev p m"
    have j: "?j < p" using m by (simp add: prev_lt)
    show ?thesis
    proof (cases "kof p (pcs c ! m) < sentof p (pcs c ! ?j)")
      case True
      then have "buf (chans c ! m) \<noteq> []"
        using inv_chan [OF I m] by simp
      then have "\<exists>c'. goStep c m = Step c'"
        unfolding inv_recv [OF I W m Recv] by simp
      with m show ?thesis by blast
    next
      case False
      with least [OF j] kof_le_sentof [of p "pcs c ! ?j"]
      have e: "kof p (pcs c ! ?j) = kof p (pcs c ! m)"
        and t: "sentof p (pcs c ! ?j) = kof p (pcs c ! ?j)" by simp_all
      from t e km obtain ph' s' where "pcs c ! ?j = Send ph' s'"
        by (cases "pcs c ! ?j") simp_all
      from send [OF j this e] j show ?thesis by blast
    qed
  qed
qed

lemma sum_list_update_less:
  fixes f :: "'b \<Rightarrow> nat"
  assumes "i < length xs" and "f y < f (xs ! i)"
  shows "sum_list (map f (xs[i := y])) < sum_list (map f xs)"
proof -
  have "sum_list (map f (xs[i := y])) = sum_list ((map f xs)[i := f y])"
    by (simp add: map_update)
  also have "\<dots> = sum_list (map f xs) + f y - map f xs ! i"
    using assms(1) by (simp add: sum_list_update)
  also have "\<dots> < sum_list (map f xs)"
  proof -
    have "map f xs ! i \<le> sum_list (map f xs)"
      using assms(1) by (intro member_le_sum_list) simp_all
    with assms show ?thesis by simp
  qed
  finally show ?thesis .
qed

lemma inv_todo:
  assumes I: "ringInv p cs X c" and W: "wfX p cs X" and st: "step c c'"
  shows "todo p c' < todo p c"
proof -
  note L = inv_lengths [OF I]
  from st obtain i where i: "i < length (pcs c)" and g: "goStep c i = Step c'"
    by (auto simp: step_def)
  from i L have ip: "i < p" by simp
  note ok = inv_pcOk [OF I ip]
  show ?thesis
  proof (cases "pcs c ! i")
    case (Send ph s)
    from g have c': "pcs c' = (pcs c)[i := Recv ph s]"
      unfolding inv_send [OF I W ip Send] by (auto split: if_splits)
    have "kof p (Send ph s) + sentof p (Send ph s) < 4 * (p - 1)"
      using pcOk_bound [of p "Send ph s"] ok Send by simp
    then have "4 * (p - 1) - (kof p (Recv ph s) + sentof p (Recv ph s))
               < 4 * (p - 1) - (kof p (pcs c ! i) + sentof p (pcs c ! i))"
      unfolding Send by (simp add: kof_Recv_Send)
    from sum_list_update_less [OF i, of "\<lambda>q. 4 * (p - 1) - (kof p q + sentof p q)", OF this]
    show ?thesis by (simp add: todo_def c')
  next
    case (Recv ph s)
    let ?q = "loopHead ph (nodes c ! i) (s + 1)"
    from g have c': "pcs c' = (pcs c)[i := ?q]"
      unfolding inv_recv [OF I W ip Recv] by (auto split: if_splits)
    have Pn: "P (nodes c ! i) = int p" using inv_node [OF I ip] by simp
    have ok': "pcOk p (Recv ph s)" using ok Recv by simp
    note N = loopHead_next [OF ok' Pn]
    have "kof p (Recv ph s) + sentof p (Recv ph s) < 4 * (p - 1)"
      using pcOk_bound [of p "Recv ph s"] ok' by simp
    then have "4 * (p - 1) - (kof p ?q + sentof p ?q)
               < 4 * (p - 1) - (kof p (pcs c ! i) + sentof p (pcs c ! i))"
      unfolding Recv using N by simp
    from sum_list_update_less [OF i, of "\<lambda>q. 4 * (p - 1) - (kof p q + sentof p q)", OF this]
    show ?thesis by (simp add: todo_def c')
  next
    case Done
    with g show ?thesis by (simp add: goStep_def)
  qed
qed

lemma inv_finishes:
  assumes "ringInv p cs X c" and W: "wfX p cs X"
  shows "\<exists>c'. steps c c' \<and> allDone c'"
  using assms(1)
proof (induction "todo p c" arbitrary: c rule: less_induct)
  case less
  show ?case
  proof (cases "allDone c")
    case True
    then show ?thesis using steps_refl by blast
  next
    case False
    from inv_progress [OF less.prems W False] obtain i d where
      i: "i < p" and g: "goStep c i = Step d" by blast
    from i have "step c d"
      using g inv_lengths [OF less.prems] by (auto simp: step_def)
    from less.hyps [OF inv_todo [OF less.prems W this] inv_step [OF less.prems W this]]
    obtain c' where "steps d c'" "allDone c'" by blast
    with \<open>step c d\<close> show ?thesis using step_steps by blast
  qed
qed

text \<open>The outcomes of the wait from a configuration that satisfies the invariant.\<close>

lemma inv_waitAll:
  assumes I: "ringInv p cs X c0" and W: "wfX p cs X" and w: "waitAll c0 r"
  shows "\<exists>c. r = Inr c \<and> steps c0 c \<and> allDone c \<and> ringInv p cs X c"
  using w
proof cases
  case (returned c)
  with inv_steps [OF _ I W] show ?thesis by blast
next
  case (panicked c i e)
  from inv_steps [OF panicked(2) I W] have Ic: "ringInv p cs X c" .
  from panicked(3) inv_lengths [OF Ic] have "i < p" by simp
  from inv_no_panic [OF Ic W this, of e] panicked(4) show ?thesis by simp
next
  case (deadlock c)
  from inv_steps [OF deadlock(2) I W] have Ic: "ringInv p cs X c" .
  from inv_progress [OF Ic W deadlock(3)] obtain i c' where "i < p" "goStep c i = Step c'"
    by blast
  with deadlock(4) inv_lengths [OF Ic] show ?thesis by auto
qed

lemma inv_allDone_Data:
  assumes "ringInv p cs X c" and "allDone c" and "i < p"
  shows "Data (nodes c ! i) = lock p cs X (2 * (p - 1)) ! i"
proof -
  from assms have "pcs c ! i = Done" by (simp add: allDone_def ringInv_def)
  with inv_node [OF assms(1,3)] show ?thesis by simp
qed

section \<open>What the lockstep computation computes\<close>

subsection \<open>Elements of the chunk operations\<close>

lemma in_chunk_iff: "0 < cs \<Longrightarrow> (c * cs \<le> j \<and> j < c * cs + cs) = (j div cs = (c::nat))"
proof
  assume cs: "0 < cs" and "c * cs \<le> j \<and> j < c * cs + cs"
  then have "c * cs \<le> j" "j < Suc c * cs" by simp_all
  then have "c \<le> j div cs" "j div cs < Suc c"
    using cs by (simp_all add: less_eq_div_iff_mult_less_eq div_less_iff_less_mult)
  then show "j div cs = c" by simp
next
  assume cs: "0 < cs" and "j div cs = c"
  then have "c * cs = j - j mod cs" by (metis minus_mod_eq_div_mult)
  moreover have "j mod cs < cs" using cs by simp
  moreover have "j mod cs \<le> j" by simp
  ultimately show "c * cs \<le> j \<and> j < c * cs + cs" by linarith
qed

lemma offset_eq: "j div cs = (c::nat) \<Longrightarrow> j - c * cs = j mod cs"
  by (metis minus_div_mult_eq_mod)

lemma addChunk_nth:
  assumes "j < length d" and "0 < cs"
  shows "addChunk cs c d r ! j = (if j div cs = c then d ! j + r ! (j mod cs) else d ! j)"
  using assms by (simp add: addChunk_def in_chunk_iff offset_eq)

lemma putChunk_nth:
  assumes "j < length d" and "0 < cs" and "c * cs + cs \<le> length d" and "length r = cs"
  shows "putChunk cs c d r ! j = (if j div cs = c then r ! (j mod cs) else d ! j)"
proof (cases "j div cs = c")
  case True
  with in_chunk_iff [OF assms(2), of c j] have b: "c * cs \<le> j" "j < c * cs + cs" by simp_all
  have l: "length (take (c * cs) d) = c * cs" using assms(3) by simp
  have "putChunk cs c d r ! j = (r @ drop (c * cs + cs) d) ! (j - c * cs)"
    unfolding putChunk_def using b l by (simp add: nth_append)
  also have "\<dots> = r ! (j - c * cs)"
  proof -
    from b have "j - c * cs < length r" unfolding assms(4) by linarith
    then show ?thesis by (simp add: nth_append)
  qed
  finally show ?thesis using True by (simp add: offset_eq)
next
  case False
  with in_chunk_iff [OF assms(2), of c j] have b: "j < c * cs \<or> c * cs + cs \<le> j" by auto
  have l: "length (take (c * cs) d) = c * cs" using assms(3) by simp
  from b show ?thesis
  proof
    assume "j < c * cs"
    then show ?thesis unfolding putChunk_def using False l by (simp add: nth_append)
  next
    assume a: "c * cs + cs \<le> j"
    then have "putChunk cs c d r ! j = (r @ drop (c * cs + cs) d) ! (j - c * cs)"
      unfolding putChunk_def using l by (simp add: nth_append)
    also have "\<dots> = drop (c * cs + cs) d ! (j - c * cs - cs)"
    proof -
      from a have "\<not> j - c * cs < length r" unfolding assms(4) by linarith
      then show ?thesis by (simp add: nth_append assms(4))
    qed
    also have "\<dots> = d ! j" using a assms(1,3) by simp
    finally show ?thesis using False by simp
  qed
qed

lemma getChunk_nth:
  assumes "c * cs + cs \<le> length d" and "k < cs"
  shows "getChunk cs c d ! k = d ! (c * cs + k)"
  using assms by (simp add: getChunk_def)

lemma lock_Suc_elem:
  assumes W: "wfX p cs X" and i: "i < p" and j: "j < p * cs"
  shows "lock p cs X (Suc k) ! i ! j =
     (if j div cs = rIdx p i k
      then (if k < p - 1
            then lock p cs X k ! i ! j
                 + lock p cs X k ! prev p i ! (sIdx p (prev p i) k * cs + j mod cs)
            else lock p cs X k ! prev p i ! (sIdx p (prev p i) k * cs + j mod cs))
      else lock p cs X k ! i ! j)"
proof -
  from i have p: "0 < p" by simp
  from j have cs: "0 < cs" by (cases cs) simp_all
  let ?d = "lock p cs X k ! i" and ?e = "lock p cs X k ! prev p i"
  let ?g = "getChunk cs (sIdx p (prev p i) k) ?e"
  have ld: "length ?d = p * cs" by (rule lock_length2 [OF W i])
  have le: "length ?e = p * cs" by (rule lock_length2 [OF W prev_lt [OF p]])
  have bs: "sIdx p (prev p i) k * cs + cs \<le> length ?e"
    using chunk_bound [OF sIdx_lt [OF p]] by (simp add: le)
  have br: "rIdx p i k * cs + cs \<le> length ?d"
    using chunk_bound [OF rIdx_lt [OF p]] by (simp add: ld)
  have lg: "length ?g = cs" by (rule getChunk_length [OF bs])
  have g: "?g ! (j mod cs) = ?e ! (sIdx p (prev p i) k * cs + j mod cs)"
    using cs by (intro getChunk_nth [OF bs]) simp
  have jd: "j < length ?d" using j ld by simp
  show ?thesis
    unfolding lock_Suc_nth [OF i]
    by (simp add: addChunk_nth [OF jd cs] putChunk_nth [OF jd cs br lg] g)
qed

lemma mod3: "a < 3 * p \<Longrightarrow> (a::nat) mod p = (if a < p then a else if a < 2 * p then a - p else a - 2 * p)"
proof -
  assume a: "a < 3 * p"
  show ?thesis
  proof (cases "a < p")
    case True
    then show ?thesis by simp
  next
    case False
    then have 1: "a mod p = (a - p) mod p" by (simp add: le_mod_geq)
    show ?thesis
    proof (cases "a < 2 * p")
      case True
      with False 1 show ?thesis by simp
    next
      case False
      then have "(a - p) mod p = (a - p - p) mod p" by (simp add: le_mod_geq)
      moreover have "a - p - p < p" using a by simp
      ultimately show ?thesis using False 1 by simp
    qed
  qed
qed

lemma prev_if: "i < p \<Longrightarrow> prev p i = (if i = 0 then p - 1 else i - 1)"
  by (simp add: prev_def mod3)

lemma dist_if: "i < p \<Longrightarrow> c < p \<Longrightarrow> dist p i c = (if c \<le> i then i - c else i + p - c)"
  by (auto simp add: dist_def mod3)

lemma F1: "i < p \<Longrightarrow> k < p - 1 \<Longrightarrow> sIdx p (prev p i) k = rIdx p i k"
  by (auto simp add: sIdx_def rIdx_def prev_if mod3)

lemma F2: "i < p \<Longrightarrow> c < p \<Longrightarrow> k < p - 1 \<Longrightarrow> (c = rIdx p i k) = (dist p i c = Suc k)"
  by (auto simp add: rIdx_def dist_if mod3)

lemma F3: "i < p \<Longrightarrow> k < p - 1 \<Longrightarrow> dist p (prev p i) (rIdx p i k) = k"
  by (auto simp add: rIdx_def dist_def prev_if mod3)

lemma F4: "i < p \<Longrightarrow> c < p \<Longrightarrow> (c + dist p i c) mod p = i"
  by (auto simp add: dist_if mod3)

lemma G1: "i < p \<Longrightarrow> t < p - 1 \<Longrightarrow> sIdx p (prev p i) (p - 1 + t) = (i + t) mod p"
  by (auto simp add: sIdx_def prev_if mod3)

lemma G1': "rIdx p i (p - 1 + t) = (i + 2 + t) mod p"
  by (simp add: rIdx_def)

lemma G2: "i < p \<Longrightarrow> c < p \<Longrightarrow> t < p - 1 \<Longrightarrow> (c = rIdx p i (p - 1 + t)) = (slot p i c = t)"
proof -
  assume i: "i < p" and c: "c < p" and t: "t < p - 1"
  have "rIdx p i (p - 1 + t) = (i + 2 + t) mod p"
    by (simp add: rIdx_def)
  also have "\<dots> = (if i + 2 + t < p then i + 2 + t else i + 2 + t - p)"
    using i t by (simp add: mod3)
  finally have r: "rIdx p i (p - 1 + t) = (if i + 2 + t < p then i + 2 + t else i + 2 + t - p)" .
  have s: "slot p i c = (if c + 2 * p - i - 2 < p then c + 2 * p - i - 2
                         else if c + 2 * p - i - 2 < 2 * p then c + 2 * p - i - 2 - p
                         else c + 2 * p - i - 2 - 2 * p)"
    unfolding slot_def using i c t by (intro mod3) linarith
  show ?thesis unfolding r s using i c t by (auto split: if_splits)
qed

lemma G3: "i < p \<Longrightarrow> t < p - 1 \<Longrightarrow> slot p (prev p i) ((i + t) mod p) = (if t = 0 then p - 1 else t - 1)"
  by (auto simp add: slot_def prev_if mod3)

lemma G4: "i < p \<Longrightarrow> dist p (prev p i) i = p - 1"
  by (auto simp add: dist_def prev_if mod3)

lemma G5: "i < p \<Longrightarrow> 0 < t \<Longrightarrow> t < p \<Longrightarrow> source p (prev p i) (t - 1) = source p i t"
  by (auto simp add: source_def prev_if mod3)

lemma G6: "i < p \<Longrightarrow> source p i 0 = i"
  by (simp add: source_def)

lemma designated_slot: "i < p \<Longrightarrow> slot p i (Suc i mod p) = p - 1"
  by (auto simp add: slot_def mod3)

lemma designated_dist: "i < p \<Longrightarrow> dist p i (Suc i mod p) = p - 1"
  by (auto simp add: dist_def mod3)

lemma chunk_of_lt: "j < p * cs \<Longrightarrow> j div cs < (p::nat)"
  by (simp add: less_mult_imp_div_less)

lemma div_chunk: "k < cs \<Longrightarrow> (c * cs + k) div cs = (c::nat)"
  by simp

lemma mod_chunk: "k < cs \<Longrightarrow> (c * cs + k) mod cs = (k::nat)"
  by simp

lemma chunk_elem_lt: "c < p \<Longrightarrow> k < cs \<Longrightarrow> c * cs + k < p * (cs::nat)"
  using chunk_bound [of c p cs] by simp

lemma chunk_decomp: "(j div cs) * cs + j mod cs = (j::nat)"
  by simp

lemma dist_lt: "0 < p \<Longrightarrow> dist p i c < p"
  by (simp add: dist_def)


lemma lock_RS:
  assumes W: "wfX p cs X"
  shows "k \<le> p - 1 \<Longrightarrow> i < p \<Longrightarrow> j < p * cs \<Longrightarrow>
     lock p cs X k ! i ! j =
       (if dist p i (j div cs) \<le> k then ringSum X p (j div cs) j (dist p i (j div cs))
        else X ! i ! j)"
proof (induction k arbitrary: i)
  case 0
  let ?c = "j div cs"
  have c: "?c < p" using 0 by (simp add: chunk_of_lt)
  show ?case
  proof (cases "dist p i ?c = 0")
    case True
    with F4 [OF "0.prems"(2) c] c have "?c = i" by simp
    with True show ?thesis by simp
  next
    case False
    then show ?thesis by simp
  qed
next
  case (Suc k)
  let ?c = "j div cs"
  have c: "?c < p" using Suc.prems by (simp add: chunk_of_lt)
  have k: "k < p - 1" "k \<le> p - 1" using Suc.prems by simp_all
  have p: "0 < p" using Suc.prems by simp
  note i = Suc.prems(2) and j = Suc.prems(3)
  have pi: "prev p i < p" by (rule prev_lt [OF p])
  show ?case
  proof (cases "?c = rIdx p i k")
    case True
    have d: "dist p i ?c = Suc k" using F2 [OF i c k(1)] True by simp
    have d': "dist p (prev p i) ?c = k" using F3 [OF i k(1)] True by simp
    have 1: "lock p cs X k ! i ! j = X ! i ! j"
      using Suc.IH [OF k(2) i j] d by simp
    have 2: "lock p cs X k ! prev p i ! j = ringSum X p ?c j k"
      using Suc.IH [OF k(2) pi j] d' by simp
    have 3: "(?c + Suc k) mod p = i" using F4 [OF i c] d by simp
    have 4: "sIdx p (prev p i) k * cs + j mod cs = j"
      unfolding F1 [OF i k(1)] True [symmetric] by (rule chunk_decomp)
    show ?thesis
      unfolding lock_Suc_elem [OF W i j] 4 1 2 d
      using True k(1) 3 by simp
  next
    case False
    then have d: "dist p i ?c \<noteq> Suc k" using F2 [OF i c k(1)] by simp
    then have "(dist p i ?c \<le> Suc k) = (dist p i ?c \<le> k)" by auto
    then show ?thesis
      unfolding lock_Suc_elem [OF W i j]
      using False Suc.IH [OF k(2) i j] by simp
  qed
qed

lemma lock_AG:
  assumes W: "wfX p cs X"
  shows "t \<le> p - 1 \<Longrightarrow> i < p \<Longrightarrow> j < p * cs \<Longrightarrow>
     lock p cs X (p - 1 + t) ! i ! j =
       (if slot p i (j div cs) < t
        then ringSum X p (source p i (slot p i (j div cs)))
               (source p i (slot p i (j div cs)) * cs + j mod cs) (p - 1)
        else ringSum X p (j div cs) j (dist p i (j div cs)))"
proof (induction t arbitrary: i j)
  case 0
  then have p: "0 < p" by simp
  have "dist p i (j div cs) \<le> p - 1" using dist_lt [OF p, of i "j div cs"] by simp
  with lock_RS [OF W _ "0.prems"(2,3), of "p - 1"] show ?case by simp
next
  case (Suc t)
  let ?c = "j div cs" and ?o = "j mod cs"
  note i = Suc.prems(2) and j = Suc.prems(3)
  have c: "?c < p" using j by (simp add: chunk_of_lt)
  have t: "t < p - 1" "t \<le> p - 1" using Suc.prems by simp_all
  have p: "0 < p" using i by simp
  have cs: "0 < cs" using j by (cases cs) simp_all
  have o: "?o < cs" using cs by simp
  have pi: "prev p i < p" by (rule prev_lt [OF p])
  have nk: "\<not> p - 1 + t < p - 1" by simp
  have S: "p - 1 + Suc t = Suc (p - 1 + t)" by simp
  show ?case
  proof (cases "?c = rIdx p i (p - 1 + t)")
    case True
    have s: "slot p i ?c = t" using G2 [OF i c t(1)] True by simp
    let ?c' = "(i + t) mod p"
    let ?j' = "?c' * cs + ?o"
    have c': "?c' < p" using p by simp
    have j': "?j' < p * cs" by (rule chunk_elem_lt [OF c' o])
    have dj: "?j' div cs = ?c'" "?j' mod cs = ?o"
      using o by (simp_all only: div_chunk mod_chunk)
    have v: "lock p cs X (Suc (p - 1 + t)) ! i ! j = lock p cs X (p - 1 + t) ! prev p i ! ?j'"
      unfolding lock_Suc_elem [OF W i j] G1 [OF i t(1)] using True nk by simp
    show ?thesis
    proof (cases "t = 0")
      case True
      then have ci: "?c' = i" using i by simp
      have "lock p cs X (p - 1 + t) ! prev p i ! ?j' = ringSum X p i (i * cs + ?o) (p - 1)"
        unfolding Suc.IH [OF t(2) pi j'] dj G3 [OF i t(1)]
        using True ci G4 [OF i] by simp
      then show ?thesis
        unfolding S v s using True G6 [OF i] by simp
    next
      case False
      then have t0: "0 < t" by simp
      have tp: "t < p" using t(1) by simp
      have "lock p cs X (p - 1 + t) ! prev p i ! ?j'
            = ringSum X p (source p i t) (source p i t * cs + ?o) (p - 1)"
        unfolding Suc.IH [OF t(2) pi j'] dj G3 [OF i t(1)]
        using False G5 [OF i t0 tp] by simp
      then show ?thesis
        unfolding S v s by simp
    qed
  next
    case False
    then have s: "slot p i ?c \<noteq> t" using G2 [OF i c t(1)] by simp
    then have "(slot p i ?c < Suc t) = (slot p i ?c < t)" by auto
    then show ?thesis
      unfolding S lock_Suc_elem [OF W i j]
      using False Suc.IH [OF t(2) i j] by simp
  qed
qed




lemma lock_designated:
  assumes W: "wfX p cs X" and i: "i < p" and k: "k < cs" and t: "t \<le> p - 1"
  shows "lock p cs X (p - 1 + t) ! i ! ((Suc i mod p) * cs + k) =
     ringSum X p (Suc i mod p) ((Suc i mod p) * cs + k) (p - 1)"
proof -
  let ?D = "Suc i mod p"
  have D: "?D < p" using i by simp
  have j: "?D * cs + k < p * cs" by (rule chunk_elem_lt [OF D k])
  have dj: "(?D * cs + k) div cs = ?D" using k by (simp only: div_chunk)
  show ?thesis
    unfolding lock_AG [OF W t i j] dj designated_slot [OF i] designated_dist [OF i]
    using t by simp
qed

section \<open>Runs of the ring\<close>

lemma initRing_start:
  assumes "1 \<le> p" and "0 \<le> cs" and "p * cs < 2 ^ 63"
  shows "\<exists>c0. initRing seed p cs = Inr c0
           \<and> ringInv (nat p) (nat cs) (seedData seed (nat p) (nat cs)) c0 \<and> stdout c0 = []"
proof -
  from assms have p: "0 < nat p" "int (nat p) = p" "int (nat cs) = cs" by simp_all
  from ringOf_inv [OF p(1), of "nat cs" "seedData seed (nat p) (nat cs)"]
  have "ringInv (nat p) (nat cs) (seedData seed (nat p) (nat cs))
          (ringOf p cs (seedData seed (nat p) (nat cs)))
        \<and> stdout (ringOf p cs (seedData seed (nat p) (nat cs))) = []"
    unfolding p(2,3) .
  with initRing_ringOf [OF assms, of seed] show ?thesis by simp
qed

lemma run_outcome:
  assumes I: "ringInv p cs X c0" and W: "wfX p cs X"
  shows "(\<exists>r. waitAll c0 r) \<and>
         (\<forall>r. waitAll c0 r \<longrightarrow>
            (\<exists>c. r = Inr c \<and> steps c0 c \<and> allDone c \<and> ringInv p cs X c))"
proof
  from inv_finishes [OF I W] obtain c where "steps c0 c" "allDone c" by blast
  then have "waitAll c0 (Inr c)" by (rule waitAll.returned)
  then show "\<exists>r. waitAll c0 r" ..
next
  show "\<forall>r. waitAll c0 r \<longrightarrow>
            (\<exists>c. r = Inr c \<and> steps c0 c \<and> allDone c \<and> ringInv p cs X c)"
    using inv_waitAll [OF I W] by blast
qed









text \<open>
  C4: the designated chunk. For every \<open>P \<ge> 1\<close>, \<open>chunkSize \<ge> 1\<close> and arbitrary initial
  vectors \<open>X\<close> of length \<open>P * chunkSize\<close>, one per rank, in every configuration reachable
  from the ring over these vectors, a rank \<open>i\<close> that has completed its \<open>P - 1\<close>
  reduce-scatter steps holds in its chunk \<open>D = (i + 1) mod P\<close>, at every offset \<open>k\<close>, the
  sum of the initial values of all \<open>P\<close> ranks at that element, added in the order of the
  ring from the rank \<open>D\<close> on: the value of rank \<open>D\<close> first, then each next rank adds its
  own value on the left, up to rank \<open>i\<close> itself (\<open>ringSum\<close>); it keeps that value through
  the allgather phase.
\<close>

theorem designated_chunk:
  assumes "0 < p" and "0 < cs" and "wfX p cs X"
    and "steps (ringOf (int p) (int cs) X) c" and "i < p"
    and "reduceScatterDone (pcs c ! i)" and "k < cs"
  shows "Data (nodes c ! i) ! (Suc i mod p * cs + k) =
           ringSum X p (Suc i mod p) (Suc i mod p * cs + k) (p - 1)"
proof -
  note W = assms(3)
  from ringOf_inv [OF assms(1), of cs X] have I0: "ringInv p cs X (ringOf (int p) (int cs) X)"
    by simp
  from inv_steps [OF assms(4) I0 W] have I: "ringInv p cs X c" .
  have "\<exists>t \<le> p - 1. kof p (pcs c ! i) = p - 1 + t"
  proof (cases "pcs c ! i")
    case (Send ph s)
    with assms(6) inv_pcOk [OF I assms(5)] have "ph = Allgather" "nat s \<le> p - 1"
      by (auto simp: reduceScatterDone_def)
    with Send show ?thesis by simp
  next
    case (Recv ph s)
    with assms(6) inv_pcOk [OF I assms(5)] have "ph = Allgather" "nat s \<le> p - 1"
      by (auto simp: reduceScatterDone_def)
    with Recv show ?thesis by simp
  next
    case Done
    then show ?thesis by (intro exI [of _ "p - 1"]) simp
  qed
  then obtain t where t: "t \<le> p - 1" "kof p (pcs c ! i) = p - 1 + t" by blast
  have "Data (nodes c ! i) = lock p cs X (p - 1 + t) ! i"
    using inv_node [OF I assms(5)] t(2) by simp
  with lock_designated [OF W assms(5,7) t(1)] show ?thesis by simp
qed

lemma ring3_ringOf: "ring3_start = ringOf (int 3) (int 1) [[1, 1, 1], [2, 2, 2], [3, 3, 3]]"
  by code_simp

text \<open>
  Rank 0 of \<^verbatim>\<open>Execute(3, 1)\<close>: its chunk 1 holds the value of rank 0 added to the sum of
  the value of rank 2 and the value of rank 1.
\<close>

theorem designated_chunk_witness:
  "wfX 3 1 [[1, 1, 1], [2, 2, 2], [3, 3, 3 :: int]]
   \<and> steps (ringOf 3 1 [[1, 1, 1], [2, 2, 2], [3, 3, 3]]) ring3_final
   \<and> reduceScatterDone (pcs ring3_final ! 0)
   \<and> Data (nodes ring3_final ! 0) ! (Suc 0 mod 3 * 1 + 0) = 1 + (3 + 2)"
proof -
  let ?X = "[[1, 1, 1], [2, 2, 2], [3, 3, 3 :: int]]"
  have 1: "(0::nat) < 3" "(0::nat) < 1" by simp_all
  have w: "wfX 3 1 ?X" by (simp add: wfX_def less_Suc_eq numeral_3_eq_3)
  have 2: "steps (ringOf (int 3) (int 1) ?X) ring3_final"
    using ring3_steps unfolding ring3_ringOf .
  have 3: "reduceScatterDone (pcs ring3_final ! 0)"
    by (simp add: reduceScatterDone_def ring3_final_def)
  have 4: "ringSum ?X 3 (Suc 0 mod 3) (Suc 0 mod 3 * 1 + 0) (3 - 1) = (1 + (3 + 2) :: int)"
    by code_simp
  from designated_chunk [OF 1 w 2 1(1) 3 1(2)]
  have "Data (nodes ring3_final ! 0) ! (Suc 0 mod 3 * 1 + 0) = 1 + (3 + 2)"
    unfolding 4 .
  moreover from 2 have "steps (ringOf 3 1 ?X) ring3_final" by simp
  ultimately show ?thesis using w 3 by (intro conjI)
qed

section \<open>Uniform input\<close>








text \<open>The outcomes of \<^verbatim>\<open>Execute\<close> for at least one participant.\<close>

lemma Execute_outcome:
  assumes "1 \<le> p" and "0 \<le> cs" and "p * cs < 2 ^ 63"
  shows "(\<exists>r :: error + ('a::ring_1) Node list \<times> 'a line list. Execute p cs r) \<and>
         (\<forall>r :: error + 'a Node list \<times> 'a line list. Execute p cs r \<longrightarrow>
            (\<exists>c out. r = Inr (nodes c, out) \<and> allDone c
               \<and> ringInv (nat p) (nat cs) (seedData uniformSeed (nat p) (nat cs)) c))"
proof -
  let ?X = "seedData uniformSeed (nat p) (nat cs) :: 'a list list"
  from initRing_start [OF assms, of "uniformSeed :: int \<Rightarrow> int \<Rightarrow> 'a"] obtain c0 where
    c0: "initRing (uniformSeed :: int \<Rightarrow> int \<Rightarrow> 'a) p cs = Inr c0"
    and I0: "ringInv (nat p) (nat cs) ?X c0" by blast
  have W: "wfX (nat p) (nat cs) ?X" by (rule wfX_seedData)
  note O = run_outcome [OF I0 W]
  show ?thesis
  proof
    from O obtain r where "waitAll c0 r" by blast
    with O obtain c where "waitAll c0 (Inr c)" by blast
    from Execute.run_returns [OF c0 this]
    show "\<exists>r :: error + 'a Node list \<times> 'a line list. Execute p cs r" ..
  next
    show "\<forall>r :: error + 'a Node list \<times> 'a line list. Execute p cs r \<longrightarrow>
            (\<exists>c out. r = Inr (nodes c, out) \<and> allDone c \<and> ringInv (nat p) (nat cs) ?X c)"
    proof (intro allI impI)
      fix r :: "error + 'a Node list \<times> 'a line list"
      assume "Execute p cs r"
      then show "\<exists>c out. r = Inr (nodes c, out) \<and> allDone c \<and> ringInv (nat p) (nat cs) ?X c"
      proof cases
        case (setup_panics e)
        with c0 show ?thesis by simp
      next
        case (run_panics d0 e)
        with c0 have "waitAll c0 (Inl e)" by simp
        with O show ?thesis by blast
      next
        case (run_returns d0 c)
        with c0 have "waitAll c0 (Inr c)" by simp
        with O have "allDone c" "ringInv (nat p) (nat cs) ?X c" by blast+
        with run_returns(1) show ?thesis by blast
      qed
    qed
  qed
qed




section \<open>Mismatched messages\<close>









section \<open>Distinct chunks\<close>

text \<open>
  The test \<^verbatim>\<open>TestRingAllReduce_CustomData_DistinctChunks\<close>, case \<^verbatim>\<open>p=3,chunk=1\<close>: every run
  ends with the same three vectors.
\<close>

lemma map_Data_nodes:
  assumes "length ns = n" and "\<And>i. i < n \<Longrightarrow> Data (ns ! i) = f i"
  shows "map Data ns = map f [0..<n]"
  using assms by (intro nth_equalityI) simp_all

lemma distinct3_init: "initRing (distinctSeed 1) 3 1 = Inr distinct3_start"
  by code_simp

lemma distinct3_outcome:
  "(\<exists>r. waitAll distinct3_start r) \<and>
     (\<forall>r. waitAll distinct3_start r \<longrightarrow>
        (\<exists>c. r = Inr c \<and>
           map Data (nodes c) = [[6003, 3003, 3], [3003, 3, 6003], [3, 6003, 3003]]))"
proof -
  let ?X = "seedData (distinctSeed 1) (nat 3) (nat 1) :: int list list"
  have 1: "(1::int) \<le> 3" "(0::int) \<le> 1" "(3::int) * 1 < 2 ^ 63" by simp_all
  from initRing_start [OF 1, of "distinctSeed 1 :: int \<Rightarrow> int \<Rightarrow> int"]
  have I0: "ringInv (nat 3) (nat 1) ?X distinct3_start"
    unfolding distinct3_init by simp
  have W: "wfX (nat 3) (nat 1) ?X" by (rule wfX_seedData)
  note O = run_outcome [OF I0 W]
  have v: "map (\<lambda>i. lock (nat 3) (nat 1) ?X (2 * (nat 3 - 1)) ! i) [0..<nat 3]
           = [[6003, 3003, 3], [3003, 3, 6003], [3, 6003, 3003]]"
    by code_simp
  have "\<exists>c. r = Inr c \<and>
           map Data (nodes c) = [[6003, 3003, 3], [3003, 3, 6003], [3, 6003, 3003]]"
    if w: "waitAll distinct3_start r" for r
  proof -
    from conjunct2 [OF O, rule_format, OF w] obtain c where
      r: "r = Inr c" and d: "allDone c" and I: "ringInv (nat 3) (nat 1) ?X c"
      by (elim exE conjE)
    have "map Data (nodes c) = map (\<lambda>i. lock (nat 3) (nat 1) ?X (2 * (nat 3 - 1)) ! i) [0..<nat 3]"
      using inv_lengths [OF I] inv_allDone_Data [OF I d] by (intro map_Data_nodes) simp_all
    then have "map Data (nodes c) = [[6003, 3003, 3], [3003, 3, 6003], [3, 6003, 3003]]"
      unfolding v .
    with r show ?thesis by (intro exI [of _ c] conjI)
  qed
  then have "\<forall>r. waitAll distinct3_start r \<longrightarrow> (\<exists>c. r = Inr c \<and>
           map Data (nodes c) = [[6003, 3003, 3], [3003, 3, 6003], [3, 6003, 3003]])"
    by (intro allI impI)
  with conjunct1 [OF O] show ?thesis by (rule conjI)
qed

lemma distinct3_vectors:
  assumes "map Data (nodes c) = [[6003, 3003, 3], [3003, 3, 6003], [3, 6003, 3003 :: int]]"
  shows "Data (nodes c ! 0) = [6003, 3003, 3] \<and> Data (nodes c ! 1) = [3003, 3, 6003]"
proof -
  from assms have "length (map Data (nodes c)) = 3" by simp
  then have l: "length (nodes c) = 3" by simp
  then have "Data (nodes c ! 0) = map Data (nodes c) ! 0"
    and "Data (nodes c ! 1) = map Data (nodes c) ! 1" by simp_all
  then show ?thesis unfolding assms by simp
qed

text \<open>
  C5: the distinct-chunk law fails on the code. With \<open>P = 3\<close>, \<open>chunkSize = 1\<close> and element \<open>j\<close>
  of rank \<open>i\<close> seeded with \<open>1000 * j + i\<close>, every run terminates and leaves \<open>6003\<close> in
  element 0 of rank 0, where the law gives \<open>3 * (1000 * 0 + 10 * 0) + 3 * (3 - 1) / 2 = 3\<close>:
  in the allgather loop a rank stores at chunk \<open>(Rank + 2 + s) mod P\<close> the chunk
  \<open>(Rank + s) mod P\<close> that its left neighbour has sent.
\<close>

theorem distinct_chunk_law_fails:
  "initRing (distinctSeed 1) 3 1 = Inr distinct3_start \<and> (\<exists>r. waitAll distinct3_start r) \<and>
     (\<forall>r. waitAll distinct3_start r \<longrightarrow>
        (\<exists>c. r = Inr c \<and> Data (nodes c ! 0) ! 0 = 6003
           \<and> Data (nodes c ! 0) ! 0 \<noteq> 3 * (1000 * 0 + 10 * 0) + 3 * (3 - 1) div 2))"
proof (intro conjI allI impI)
  show "initRing (distinctSeed 1) 3 1 = Inr distinct3_start" by (rule distinct3_init)
  show "\<exists>r. waitAll distinct3_start r" by (rule conjunct1 [OF distinct3_outcome])
next
  fix r assume w: "waitAll distinct3_start r"
  from conjunct2 [OF distinct3_outcome, rule_format, OF w] obtain c where
    r: "r = Inr c"
    and m: "map Data (nodes c) = [[6003, 3003, 3], [3003, 3, 6003], [3, 6003, 3003]]"
    by (elim exE conjE)
  from distinct3_vectors [OF m] have "Data (nodes c ! 0) ! 0 = 6003" by simp
  moreover from this
  have "Data (nodes c ! 0) ! 0 \<noteq> 3 * (1000 * 0 + 10 * 0) + 3 * (3 - 1) div 2" by simp
  ultimately show "\<exists>c. r = Inr c \<and> Data (nodes c ! 0) ! 0 = 6003
           \<and> Data (nodes c ! 0) ! 0 \<noteq> 3 * (1000 * 0 + 10 * 0) + 3 * (3 - 1) div 2"
    using r by (intro exI [of _ c] conjI)
qed

text \<open>A run of the test configuration that returns, with \<open>6003\<close> in element 0 of rank 0.\<close>

theorem distinct_chunk_law_fails_witness:
  "\<exists>c. waitAll distinct3_start (Inr c) \<and> Data (nodes c ! 0) ! 0 = 6003"
proof -
  note T = distinct_chunk_law_fails
  from T obtain r where w: "waitAll distinct3_start r" by (elim exE conjE)
  from T have "\<exists>c. r = Inr c \<and> Data (nodes c ! 0) ! 0 = 6003
           \<and> Data (nodes c ! 0) ! 0 \<noteq> 3 * (1000 * 0 + 10 * 0) + 3 * (3 - 1) div 2"
    using w by (elim conjE allE [of _ r] impE)
  then obtain c where r: "r = Inr c" and d: "Data (nodes c ! 0) ! 0 = 6003"
    by (elim exE conjE)
  from w have "waitAll distinct3_start (Inr c)" unfolding r .
  with d show ?thesis by (intro exI [of _ c] conjI)
qed

text \<open>
  C6: convergence fails on the code. On the same input every run terminates with
  \<open>[6003, 3003, 3]\<close> at rank 0 and \<open>[3003, 3, 6003]\<close> at rank 1: the final vectors of the
  participants are not pairwise identical.
\<close>

theorem convergence_fails:
  "initRing (distinctSeed 1) 3 1 = Inr distinct3_start \<and> (\<exists>r. waitAll distinct3_start r) \<and>
     (\<forall>r. waitAll distinct3_start r \<longrightarrow>
        (\<exists>c. r = Inr c \<and> Data (nodes c ! 0) = [6003, 3003, 3]
           \<and> Data (nodes c ! 1) = [3003, 3, 6003]
           \<and> Data (nodes c ! 0) \<noteq> Data (nodes c ! 1)))"
proof (intro conjI allI impI)
  show "initRing (distinctSeed 1) 3 1 = Inr distinct3_start" by (rule distinct3_init)
  show "\<exists>r. waitAll distinct3_start r" by (rule conjunct1 [OF distinct3_outcome])
next
  fix r assume w: "waitAll distinct3_start r"
  from conjunct2 [OF distinct3_outcome, rule_format, OF w] obtain c where
    r: "r = Inr c"
    and m: "map Data (nodes c) = [[6003, 3003, 3], [3003, 3, 6003], [3, 6003, 3003]]"
    by (elim exE conjE)
  from distinct3_vectors [OF m] have 0: "Data (nodes c ! 0) = [6003, 3003, 3]"
    and 1: "Data (nodes c ! 1) = [3003, 3, 6003]" by simp_all
  have "Data (nodes c ! 0) \<noteq> Data (nodes c ! 1)" unfolding 0 1 by simp
  with r 0 1 show "\<exists>c. r = Inr c \<and> Data (nodes c ! 0) = [6003, 3003, 3]
           \<and> Data (nodes c ! 1) = [3003, 3, 6003]
           \<and> Data (nodes c ! 0) \<noteq> Data (nodes c ! 1)"
    by (intro exI [of _ c] conjI)
qed

text \<open>A run of the test configuration that returns, with the two vectors.\<close>

theorem convergence_fails_witness:
  "\<exists>c. waitAll distinct3_start (Inr c) \<and> Data (nodes c ! 0) = [6003, 3003, 3]
      \<and> Data (nodes c ! 1) = [3003, 3, 6003]"
proof -
  note T = convergence_fails
  from T obtain r where w: "waitAll distinct3_start r" by (elim exE conjE)
  from T have "\<exists>c. r = Inr c \<and> Data (nodes c ! 0) = [6003, 3003, 3]
           \<and> Data (nodes c ! 1) = [3003, 3, 6003]
           \<and> Data (nodes c ! 0) \<noteq> Data (nodes c ! 1)"
    using w by (elim conjE allE [of _ r] impE)
  then obtain c where r: "r = Inr c" and 0: "Data (nodes c ! 0) = [6003, 3003, 3]"
    and 1: "Data (nodes c ! 1) = [3003, 3, 6003]"
    by (elim exE conjE)
  from w have "waitAll distinct3_start (Inr c)" unfolding r .
  with 0 1 show ?thesis by (intro exI [of _ c] conjI)
qed

section \<open>Arguments out of range\<close>

lemma initRing_negative:
  assumes "p < 0 \<or> (1 \<le> p \<and> wrap64 (p * cs) < 0)"
  shows "initRing seed p cs = Inl MakesliceLenOutOfRange"
  using assms by (auto simp: initRing_def Let_def)

lemma wrap64_negative:
  assumes "1 \<le> p" and "cs < 0" and "- (2 ^ 63) \<le> p * cs"
  shows "wrap64 (p * cs) < 0"
proof -
  have n: "p * cs < 0" using assms(1,2) by (intro mult_pos_neg) simp_all
  then have "p * cs < 2 ^ 63" by simp
  from wrap64_id [OF assms(3) this] n show ?thesis by simp
qed

text \<open>
  With a negative chunk size and at least two ranks, the first action of every
  goroutine is \<^verbatim>\<open>make([]float64, proc.ChunkSize)\<close>, which panics.
\<close>

lemma first_send_panics:
  assumes "2 \<le> p" and "cs < 0" and "i < nat p"
  shows "goStep (ringOf p cs X) i = Panic MakesliceLenOutOfRange"
proof -
  let ?n = "newNode p cs (int i) (X ! i)"
  have n: "nodes (ringOf p cs X) ! i = ?n" using assms(3) by (simp add: ringOf_def)
  have q: "pcs (ringOf p cs X) ! i = Send ReduceScatter 0"
    using assms(1,3) by (simp add: ringOf_def loopHead_def newNode_def)
  have s: "sendIdx ReduceScatter ?n 0 = Inr ((int i - 0 + p) smod p)"
    using assms(1) by (simp add: sendIdx_def goRem_def newNode_def)
  have r: "recvIdx ReduceScatter ?n 0 = Inr ((int i - 0 - 1 + p) smod p)"
    using assms(1) by (simp add: recvIdx_def goRem_def newNode_def)
  have b: "buildMsg ?n si = Inl MakesliceLenOutOfRange" for si
    using assms(2) by (simp add: buildMsg_def make_def newNode_def Let_def)
  show ?thesis
    unfolding goStep_def Let_def n q pc.case s r andThen_simps b sum.case ..
qed

lemma all_panic_waitAll:
  assumes "0 < length (pcs c0)" and "\<forall>i < length (pcs c0). goStep c0 i = Panic e"
  shows "waitAll c0 r \<longleftrightarrow> r = Inl e"
proof
  have ns: "\<not> step c0 c'" for c'
    using assms(2) by (auto simp: step_def)
  have st: "c = c0" if "steps c0 c" for c
    using that
  proof (induction rule: steps_induct)
    case refl
    show ?case ..
  next
    case (step d d')
    with ns [of d'] show ?case by simp
  qed
  from assms have g: "goStep c0 0 = Panic e" by simp
  have nd: "\<not> allDone c0"
  proof
    assume "allDone c0"
    from allDone_goStep [OF this assms(1)] g show False by simp
  qed
  assume "waitAll c0 r"
  then show "r = Inl e"
  proof cases
    case (returned c)
    with st [of c] nd show ?thesis by simp
  next
    case (panicked c i e')
    with st [of c] assms(2) show ?thesis by simp
  next
    case (deadlock c)
    with st [of c] assms(1) g show ?thesis by auto
  qed
next
  assume r: "r = Inl e"
  from assms have g: "goStep c0 0 = Panic e" by simp
  from waitAll.panicked [OF steps_refl assms(1) g] show "waitAll c0 r" unfolding r .
qed

lemma Execute_run_panic:
  assumes "initRing (uniformSeed :: int \<Rightarrow> int \<Rightarrow> 'a::ring_1) p cs = Inr c0"
    and "\<And>r. waitAll c0 r \<longleftrightarrow> r = Inl e"
  shows "Execute p cs (r :: error + 'a Node list \<times> 'a line list) \<longleftrightarrow> r = Inl e"
proof
  assume "Execute p cs r"
  then show "r = Inl e"
  proof cases
    case (setup_panics e')
    with assms(1) show ?thesis by simp
  next
    case (run_panics d0 e')
    with assms(1) have "waitAll c0 (Inl e')" by simp
    with assms(2) run_panics(1) show ?thesis by simp
  next
    case (run_returns d0 c)
    with assms(1) have "waitAll c0 (Inr c)" by simp
    with assms(2) show ?thesis by simp
  qed
next
  assume r: "r = Inl e"
  from assms(2) have "waitAll c0 (Inl e)" by simp
  from Execute.run_panics [OF assms(1) this] show "Execute p cs r" unfolding r .
qed

text \<open>
  C3, as amended: \<^verbatim>\<open>Execute\<close> validates nothing and reports no configuration error; what
  happens is decided by \<^verbatim>\<open>make\<close> and by the 64-bit product \<^verbatim>\<open>totalSize := p * chunkSize\<close>.
  For \<open>P < 0\<close>, and for \<open>P \<ge> 1\<close> with a negative \<^verbatim>\<open>totalSize\<close>, the construction of the ring
  panics in \<^verbatim>\<open>make\<close> (a negative length), before any participant is started, and that
  panic is the only outcome; for \<open>P \<ge> 1\<close> this is the case of every \<open>chunkSize < 0\<close> whose
  product with \<open>P\<close> does not wrap. For \<open>P \<ge> 2\<close> and \<open>chunkSize < 0\<close> with a product that
  wraps to a value that is not negative, the setup succeeds, the participants are
  started, and each one panics in its first action, at \<^verbatim>\<open>make([]float64, proc.ChunkSize)\<close>;
  this panic is the only outcome. For \<open>P = 0\<close> the only outcome is the empty sequence,
  returned normally. For \<open>P \<ge> 1\<close> with \<open>chunkSize = 0\<close> the participants run the protocol
  on empty vectors and \<^verbatim>\<open>Execute\<close> returns \<open>P\<close> participants normally.
\<close>

theorem Execute_no_validation:
  "(procs < 0 \<or> (1 \<le> procs \<and> wrap64 (procs * chunkSize) < 0) \<longrightarrow>
      initRing (uniformSeed :: int \<Rightarrow> int \<Rightarrow> 'a::ring_1) procs chunkSize
        = Inl MakesliceLenOutOfRange
      \<and> (\<forall>r :: error + 'a Node list \<times> 'a line list.
            Execute procs chunkSize r \<longleftrightarrow> r = Inl MakesliceLenOutOfRange))
   \<and> (1 \<le> procs \<and> chunkSize < 0 \<and> - (2 ^ 63) \<le> procs * chunkSize \<longrightarrow>
        wrap64 (procs * chunkSize) < 0)
   \<and> (2 \<le> procs \<and> chunkSize < 0 \<and> 0 \<le> wrap64 (procs * chunkSize) \<longrightarrow>
        (\<exists>c0. initRing (uniformSeed :: int \<Rightarrow> int \<Rightarrow> 'a) procs chunkSize = Inr c0
              \<and> length (pcs c0) = nat procs
              \<and> (\<forall>i < nat procs. goStep c0 i = Panic MakesliceLenOutOfRange))
        \<and> (\<forall>r :: error + 'a Node list \<times> 'a line list.
              Execute procs chunkSize r \<longleftrightarrow> r = Inl MakesliceLenOutOfRange))
   \<and> (procs = 0 \<longrightarrow>
        (\<forall>r :: error + 'a Node list \<times> 'a line list.
           Execute procs chunkSize r \<longleftrightarrow> r = Inr ([], [])))
   \<and> (1 \<le> procs \<and> chunkSize = 0 \<longrightarrow>
        (\<exists>r :: error + 'a Node list \<times> 'a line list. Execute procs chunkSize r)
        \<and> (\<forall>r :: error + 'a Node list \<times> 'a line list.
              Execute procs chunkSize r \<longrightarrow>
                (\<exists>ns out. r = Inr (ns, out) \<and> length ns = nat procs
                   \<and> (\<forall>n \<in> set ns. Data n = []))))"
proof (intro conjI impI)
  assume a: "procs < 0 \<or> (1 \<le> procs \<and> wrap64 (procs * chunkSize) < 0)"
  show i: "initRing (uniformSeed :: int \<Rightarrow> int \<Rightarrow> 'a) procs chunkSize = Inl MakesliceLenOutOfRange"
    by (rule initRing_negative [OF a])
  show "\<forall>r :: error + 'a Node list \<times> 'a line list.
            Execute procs chunkSize r \<longleftrightarrow> r = Inl MakesliceLenOutOfRange"
    using Execute_setup_panic [OF i] by (intro allI)
next
  assume "1 \<le> procs \<and> chunkSize < 0 \<and> - (2 ^ 63) \<le> procs * chunkSize"
  then show "wrap64 (procs * chunkSize) < 0" by (intro wrap64_negative) simp_all
next
  assume a: "2 \<le> procs \<and> chunkSize < 0 \<and> 0 \<le> wrap64 (procs * chunkSize)"
  let ?X = "map (\<lambda>i. map (\<lambda>j. (uniformSeed :: int \<Rightarrow> int \<Rightarrow> 'a) (int i) (int j))
                        [0..<nat (wrap64 (procs * chunkSize))]) [0..<nat procs]"
  let ?c = "ringOf procs chunkSize ?X"
  from a have p: "2 \<le> procs" and cs: "chunkSize < 0" by simp_all
  have i: "initRing (uniformSeed :: int \<Rightarrow> int \<Rightarrow> 'a) procs chunkSize = Inr ?c"
    using a by (simp add: initRing_def Let_def)
  have l: "length (pcs ?c) = nat procs" by (simp add: ringOf_def)
  have g: "\<forall>i < nat procs. goStep ?c i = Panic MakesliceLenOutOfRange"
    using first_send_panics [OF p cs] by (intro allI impI)
  from i l g
  show "\<exists>c0. initRing (uniformSeed :: int \<Rightarrow> int \<Rightarrow> 'a) procs chunkSize = Inr c0
              \<and> length (pcs c0) = nat procs
              \<and> (\<forall>i < nat procs. goStep c0 i = Panic MakesliceLenOutOfRange)"
    by (intro exI [of _ ?c] conjI)
  have 0: "0 < length (pcs ?c)" using p l by simp
  have g': "\<forall>i < length (pcs ?c). goStep ?c i = Panic MakesliceLenOutOfRange"
    using g unfolding l .
  show "\<forall>r :: error + 'a Node list \<times> 'a line list.
              Execute procs chunkSize r \<longleftrightarrow> r = Inl MakesliceLenOutOfRange"
    using Execute_run_panic [OF i all_panic_waitAll [OF 0 g']] by (intro allI)
next
  assume z: "procs = 0"
  let ?c = "\<lparr>nodes = [], pcs = [], chans = [], stdout = []\<rparr> :: 'a config"
  have d: "allDone ?c" by (simp add: allDone_def)
  have i: "initRing (uniformSeed :: int \<Rightarrow> int \<Rightarrow> 'a) procs chunkSize = Inr ?c"
    unfolding z by (rule initRing_0)
  show "\<forall>r :: error + 'a Node list \<times> 'a line list.
           Execute procs chunkSize r \<longleftrightarrow> r = Inr ([], [])"
    using Execute_done [OF i d] by (simp add: finalReport_def)
next
  assume a: "1 \<le> procs \<and> chunkSize = 0"
  then have p: "1 \<le> procs" and cs: "0 \<le> chunkSize" "nat chunkSize = 0"
    and b: "procs * chunkSize < 2 ^ 63" by simp_all
  note O = Execute_outcome [OF p cs(1) b, where ?'a = 'a]
  show "\<exists>r :: error + 'a Node list \<times> 'a line list. Execute procs chunkSize r"
    by (rule conjunct1 [OF O])
  show "\<forall>r :: error + 'a Node list \<times> 'a line list.
              Execute procs chunkSize r \<longrightarrow>
                (\<exists>ns out. r = Inr (ns, out) \<and> length ns = nat procs
                   \<and> (\<forall>n \<in> set ns. Data n = []))"
  proof (intro allI impI)
    fix r :: "error + 'a Node list \<times> 'a line list"
    assume e: "Execute procs chunkSize r"
    let ?X = "seedData uniformSeed (nat procs) (nat chunkSize) :: 'a list list"
    from conjunct2 [OF O, rule_format, OF e] obtain c out where
      r: "r = Inr (nodes c, out)" and d: "allDone c"
      and I: "ringInv (nat procs) (nat chunkSize) ?X c"
      by (elim exE conjE)
    have l: "length (nodes c) = nat procs" using inv_lengths [OF I] by simp
    have "Data n = []" if "n \<in> set (nodes c)" for n
    proof -
      from that l obtain i where i: "i < nat procs" and n: "n = nodes c ! i"
        by (auto simp: in_set_conv_nth)
      have "length (Data n) = 0"
        unfolding n inv_allDone_Data [OF I d i] lock_length2 [OF wfX_seedData i] cs(2)
        by simp
      then show ?thesis by simp
    qed
    then have "\<forall>n \<in> set (nodes c). Data n = []" by (intro ballI)
    with r l show "\<exists>ns out. r = Inr (ns, out) \<and> length ns = nat procs
                   \<and> (\<forall>n \<in> set ns. Data n = [])"
      by (intro exI [of _ "nodes c"] exI [of _ out] conjI)
  qed
qed

text \<open>
  One call for each case: \<^verbatim>\<open>Execute(-1, 5)\<close>, \<^verbatim>\<open>Execute(1, -2)\<close>, \<^verbatim>\<open>Execute(2, -2^63)\<close> (the
  product wraps to 0), \<^verbatim>\<open>Execute(0, 0)\<close> and \<^verbatim>\<open>Execute(2, 0)\<close>.
\<close>

theorem Execute_no_validation_witness:
  "Execute (- 1) 5 (Inl MakesliceLenOutOfRange :: error + int Node list \<times> int line list)
   \<and> Execute 1 (- 2) (Inl MakesliceLenOutOfRange :: error + int Node list \<times> int line list)
   \<and> wrap64 (1 * (- 2)) < 0
   \<and> wrap64 (2 * (- 9223372036854775808)) = 0
   \<and> (\<exists>c0. initRing (uniformSeed :: int \<Rightarrow> int \<Rightarrow> int) 2 (- 9223372036854775808) = Inr c0
          \<and> goStep c0 0 = Panic MakesliceLenOutOfRange)
   \<and> Execute 2 (- 9223372036854775808)
       (Inl MakesliceLenOutOfRange :: error + int Node list \<times> int line list)
   \<and> Execute 0 0 (Inr ([], []) :: error + int Node list \<times> int line list)
   \<and> (\<exists>ns out. Execute 2 0 (Inr (ns, out) :: error + int Node list \<times> int line list)
         \<and> length ns = 2 \<and> map Data ns = [[], []])"
proof (intro conjI)
  note T = Execute_no_validation [where ?'a = int]
  have 1: "(- 1 :: int) < 0 \<or> (1 \<le> (- 1 :: int) \<and> wrap64 (- 1 * 5) < 0)" by simp
  from T [of "- 1" 5, THEN conjunct1] 1
  have "\<forall>r :: error + int Node list \<times> int line list.
          Execute (- 1) 5 r \<longleftrightarrow> r = Inl MakesliceLenOutOfRange" by simp
  then show "Execute (- 1) 5 (Inl MakesliceLenOutOfRange :: error + int Node list \<times> int line list)"
    by simp
  have 2: "1 \<le> (1 :: int) \<and> (- 2 :: int) < 0 \<and> - (2 ^ 63) \<le> (1 :: int) * (- 2)" by simp
  from T [of 1 "- 2", THEN conjunct2, THEN conjunct1] 2
  show w: "wrap64 (1 * (- 2)) < 0" by simp
  then have 3: "(1 :: int) < 0 \<or> (1 \<le> (1 :: int) \<and> wrap64 (1 * (- 2)) < 0)" by simp
  from T [of 1 "- 2", THEN conjunct1] 3
  have "\<forall>r :: error + int Node list \<times> int line list.
          Execute 1 (- 2) r \<longleftrightarrow> r = Inl MakesliceLenOutOfRange" by simp
  then show "Execute 1 (- 2) (Inl MakesliceLenOutOfRange :: error + int Node list \<times> int line list)"
    by simp
  show z: "wrap64 (2 * (- 9223372036854775808)) = 0" by (simp add: wrap64_def)
  then have 4: "2 \<le> (2 :: int) \<and> (- 9223372036854775808 :: int) < 0
                \<and> 0 \<le> wrap64 (2 * (- 9223372036854775808))" by simp
  from T [of 2 "- 9223372036854775808", THEN conjunct2, THEN conjunct2, THEN conjunct1] 4
  have x: "\<exists>c0. initRing (uniformSeed :: int \<Rightarrow> int \<Rightarrow> int) 2 (- 9223372036854775808) = Inr c0
              \<and> length (pcs c0) = nat 2
              \<and> (\<forall>i < nat 2. goStep c0 i = Panic MakesliceLenOutOfRange)"
    and y: "\<forall>r :: error + int Node list \<times> int line list.
              Execute 2 (- 9223372036854775808) r \<longleftrightarrow> r = Inl MakesliceLenOutOfRange"
    by simp_all
  from x obtain c0 where
    i: "initRing (uniformSeed :: int \<Rightarrow> int \<Rightarrow> int) 2 (- 9223372036854775808) = Inr c0"
    and g: "\<forall>i < nat 2. goStep c0 i = Panic MakesliceLenOutOfRange"
    by (elim exE conjE)
  from g have "goStep c0 0 = Panic MakesliceLenOutOfRange" by simp
  with i show "\<exists>c0. initRing (uniformSeed :: int \<Rightarrow> int \<Rightarrow> int) 2 (- 9223372036854775808) = Inr c0
          \<and> goStep c0 0 = Panic MakesliceLenOutOfRange"
    by (intro exI [of _ c0] conjI)
  from y show "Execute 2 (- 9223372036854775808)
       (Inl MakesliceLenOutOfRange :: error + int Node list \<times> int line list)"
    by simp
  from T [of 0 0, THEN conjunct2, THEN conjunct2, THEN conjunct2, THEN conjunct1]
  have "\<forall>r :: error + int Node list \<times> int line list.
          Execute 0 0 r \<longleftrightarrow> r = Inr ([], [])" by simp
  then show "Execute 0 0 (Inr ([], []) :: error + int Node list \<times> int line list)"
    by simp
  have 5: "1 \<le> (2 :: int) \<and> (0 :: int) = 0" by simp
  from T [of 2 0, THEN conjunct2, THEN conjunct2, THEN conjunct2, THEN conjunct2] 5 have
    e: "\<exists>r :: error + int Node list \<times> int line list. Execute 2 0 r"
    and a: "\<forall>r :: error + int Node list \<times> int line list. Execute 2 0 r \<longrightarrow>
                (\<exists>ns out. r = Inr (ns, out) \<and> length ns = nat 2
                   \<and> (\<forall>n \<in> set ns. Data n = []))"
    by simp_all
  from e obtain r :: "error + int Node list \<times> int line list" where x: "Execute 2 0 r" ..
  from a [rule_format, OF x] obtain ns out where r: "r = Inr (ns, out)"
    and l: "length ns = nat 2" and d: "\<forall>n \<in> set ns. Data n = []"
    by (elim exE conjE)
  have "map Data ns = replicate (length ns) []"
    using d by (intro nth_equalityI) simp_all
  then have "map Data ns = [[], []]" unfolding l by (simp add: numeral_2_eq_2)
  with x l show "\<exists>ns out. Execute 2 0 (Inr (ns, out) :: error + int Node list \<times> int line list)
         \<and> length ns = 2 \<and> map Data ns = [[], []]"
    unfolding r by (intro exI [of _ ns] exI [of _ out] conjI) simp_all
qed

lemma ring2_empty_init:
  "initRing uniformSeed 2 0 =
     Inr \<lparr>nodes = [\<lparr>Rank = 0, P = 2, ChunkSize = 0, Data = [] :: int list, In = 0, Out = 1\<rparr>,
                   \<lparr>Rank = 1, P = 2, ChunkSize = 0, Data = [], In = 1, Out = 0\<rparr>],
          pcs = [Send ReduceScatter 0, Send ReduceScatter 0],
          chans = [Chan 2 [], Chan 2 []], stdout = []\<rparr>"
  by code_simp

lemma ring2_empty_run:
  "runSchedule [0, 1, 0, 1, 0, 1, 0, 1]
     \<lparr>nodes = [\<lparr>Rank = 0, P = 2, ChunkSize = 0, Data = [] :: int list, In = 0, Out = 1\<rparr>,
               \<lparr>Rank = 1, P = 2, ChunkSize = 0, Data = [], In = 1, Out = 0\<rparr>],
      pcs = [Send ReduceScatter 0, Send ReduceScatter 0],
      chans = [Chan 2 [], Chan 2 []], stdout = []\<rparr>
   = Step \<lparr>nodes = [\<lparr>Rank = 0, P = 2, ChunkSize = 0, Data = [], In = 0, Out = 1\<rparr>,
                    \<lparr>Rank = 1, P = 2, ChunkSize = 0, Data = [], In = 1, Out = 0\<rparr>],
           pcs = [Done, Done], chans = [Chan 2 [], Chan 2 []], stdout = []\<rparr>"
  by code_simp

text \<open>
  C3, counterexample: \<^verbatim>\<open>Execute(2, 0)\<close>, a call with \<open>chunkSize < 1\<close>. No configuration
  error is raised: both participants run their four steps (on empty chunks) and
  \<^verbatim>\<open>Execute\<close> returns the two nodes.
\<close>

theorem no_configuration_error:
  "Execute 2 0 (Inr
     ([\<lparr>Rank = 0, P = 2, ChunkSize = 0, Data = [] :: int list, In = 0, Out = 1\<rparr>,
       \<lparr>Rank = 1, P = 2, ChunkSize = 0, Data = [], In = 1, Out = 0\<rparr>],
      [FinalData 0 [], FinalData 1 []]))"
proof -
  let ?c = "\<lparr>nodes = [\<lparr>Rank = 0, P = 2, ChunkSize = 0, Data = [] :: int list, In = 0, Out = 1\<rparr>,
                    \<lparr>Rank = 1, P = 2, ChunkSize = 0, Data = [], In = 1, Out = 0\<rparr>],
           pcs = [Done, Done], chans = [Chan 2 [], Chan 2 []], stdout = []\<rparr>"
  have d: "allDone ?c" by (simp add: allDone_def)
  have f: "stdout ?c @ finalReport ?c = [FinalData 0 [], FinalData 1 []]"
    by code_simp
  from Execute_schedule [OF ring2_empty_init ring2_empty_run d] show ?thesis
    unfolding f by simp
qed

end
